theory Spec2Isabelle
  imports Main "HOL-Library.Word" "HOL-Library.Sublist" "HOL-Library.Multiset" "HOL-Library.AList"
begin

unbundle bit_operations_syntax

section \<open>JavaScript strings\<close>

text \<open>
  A JavaScript string is a sequence of UTF-16 code units; \<open>charCodeAt\<close> reads one of
  them as a number below \<open>2 ^ 16\<close>. String literals of the source are written
  \<open>js ''...''\<close>.
\<close>

type_synonym jschar = "16 word"
type_synonym jsstring = "jschar list"

definition js :: "string \<Rightarrow> jsstring" where
  "js s = map (\<lambda>c. of_nat (of_char c)) s"

text \<open>
  The characters that the regular expression class \<open>\s\<close> matches and that
  \<open>trim\<close>, \<open>trimEnd\<close> remove: the white space and line terminator code points of
  ECMAScript (TAB, LF, VT, FF, CR, SP, NBSP, U+1680, U+2000 to U+200A, U+2028, U+2029,
  U+202F, U+205F, U+3000, U+FEFF).
\<close>

definition is_space :: "jschar \<Rightarrow> bool" where
  "is_space c =
     (c = 9 \<or> c = 10 \<or> c = 11 \<or> c = 12 \<or> c = 13 \<or> c = 32 \<or> c = 160 \<or> c = 5760 \<or>
      (8192 \<le> c \<and> c \<le> 8202) \<or> c = 8232 \<or> c = 8233 \<or> c = 8239 \<or> c = 8287 \<or>
      c = 12288 \<or> c = 65279)"

definition trimStart :: "jsstring \<Rightarrow> jsstring" where
  "trimStart s = dropWhile is_space s"

definition trimEnd :: "jsstring \<Rightarrow> jsstring" where
  "trimEnd s = rev (dropWhile is_space (rev s))"

definition trim :: "jsstring \<Rightarrow> jsstring" where
  "trim s = trimEnd (trimStart s)"

text \<open>\<open>s[i]\<close>: the character at index \<open>i\<close>, \<open>undefined\<close> out of range.\<close>

definition char_at :: "jsstring \<Rightarrow> int \<Rightarrow> jschar option" where
  "char_at s i = (if 0 \<le> i \<and> i < int (length s) then Some (s ! nat i) else None)"

text \<open>
  \<open>s.indexOf(pat)\<close>: the first index at which \<open>pat\<close> occurs in \<open>s\<close>, or \<open>-1\<close>.
\<close>

fun indexOf_at :: "jsstring \<Rightarrow> jsstring \<Rightarrow> int \<Rightarrow> int" where
  "indexOf_at [] pat i = (if pat = [] then i else - 1)"
| "indexOf_at (c # cs) pat i = (if prefix pat (c # cs) then i else indexOf_at cs pat (i + 1))"

definition indexOf :: "jsstring \<Rightarrow> jsstring \<Rightarrow> int" where
  "indexOf s pat = indexOf_at s pat 0"

text \<open>\<open>s.includes(pat)\<close>.\<close>

definition includes_js :: "jsstring \<Rightarrow> jsstring \<Rightarrow> bool" where
  "includes_js s pat = (indexOf s pat \<noteq> - 1)"

text \<open>Decimal digits of a natural number, as \<open>String(n)\<close> prints an integer.\<close>

fun digits_of :: "nat \<Rightarrow> jsstring" where
  "digits_of n = (if n < 10 then [48 + of_nat n] else digits_of (n div 10) @ [48 + of_nat (n mod 10)])"

declare digits_of.simps [simp del]

section \<open>Fragment hasher\<close>

text \<open>
  \<open>Math.imul\<close> multiplies two 32-bit integers and keeps the low 32 bits; the bit
  operators \<open>^\<close>, \<open>&\<close> and \<open>>>>\<close> work on the 32-bit reading of their operands.
\<close>

definition imul :: "32 word \<Rightarrow> 32 word \<Rightarrow> 32 word" where
  "imul a b = a * b"

text \<open>The \<open>for\<close> loop of \<open>cyrb53\<close>: \<open>i\<close> runs over the indices of \<open>str\<close>.\<close>

function cyrb53_loop :: "jsstring \<Rightarrow> nat \<Rightarrow> 32 word \<Rightarrow> 32 word \<Rightarrow> 32 word \<times> 32 word" where
  "cyrb53_loop str i h1 h2 =
     (if i < length str
      then (let ch = ucast (str ! i) in
            cyrb53_loop str (i + 1) (imul (h1 XOR ch) 2654435761) (imul (h2 XOR ch) 1597334677))
      else (h1, h2))"
  by pat_completeness auto
termination
  by (relation "measure (\<lambda>(str, i, h1, h2). length str - i)") auto

declare cyrb53_loop.simps [simp del]

text \<open>
  \<open>cyrb53 str seed\<close>. The seed is an integer, read as 32 bits by \<open>^\<close>;
  \<open>0xdeadbeef = 3735928559\<close> and \<open>0x41c6ce57 = 1103547991\<close>. The result
  \<open>4294967296 * (2097151 & h2) + (h1>>>0)\<close> is below \<open>2 ^ 53\<close>, so the
  floating-point arithmetic of the source is exact and the result is a natural number.
\<close>

definition cyrb53 :: "jsstring \<Rightarrow> int \<Rightarrow> nat" where
  "cyrb53 str seed =
     (case cyrb53_loop str 0 (3735928559 XOR word_of_int seed) (1103547991 XOR word_of_int seed) of
        (h1, h2) \<Rightarrow>
          (let h1' = imul (h1 XOR drop_bit 16 h1) 2246822507 XOR imul (h2 XOR drop_bit 13 h2) 3266489909;
               h2' = imul (h2 XOR drop_bit 16 h2) 2246822507 XOR imul (h1' XOR drop_bit 13 h1') 3266489909
           in 4294967296 * unat (2097151 AND h2') + unat h1'))"

subsection \<open>The mix as the specification words it\<close>

text \<open>
  Two 32-bit lanes; every character updates both by a multiply-xor; a cross-lane
  avalanche finalises them; the low 21 bits of lane 2 become the high bits of the result.
\<close>

definition lane_seeds :: "int \<Rightarrow> 32 word \<times> 32 word" where
  "lane_seeds seed = (3735928559 XOR word_of_int seed, 1103547991 XOR word_of_int seed)"

definition lane_mix :: "32 word \<times> 32 word \<Rightarrow> jschar \<Rightarrow> 32 word \<times> 32 word" where
  "lane_mix h c = (imul (fst h XOR ucast c) 2654435761, imul (snd h XOR ucast c) 1597334677)"

definition avalanche :: "32 word \<times> 32 word \<Rightarrow> 32 word \<times> 32 word" where
  "avalanche h =
     (let l1 = imul (fst h XOR drop_bit 16 (fst h)) 2246822507 XOR
               imul (snd h XOR drop_bit 13 (snd h)) 3266489909;
          l2 = imul (snd h XOR drop_bit 16 (snd h)) 2246822507 XOR
               imul (l1 XOR drop_bit 13 l1) 3266489909
      in (l1, l2))"

definition combine :: "32 word \<times> 32 word \<Rightarrow> nat" where
  "combine l = unat (snd l AND 2097151) * 2 ^ 32 + unat (fst l)"

definition cyrb53_spec :: "jsstring \<Rightarrow> int \<Rightarrow> nat" where
  "cyrb53_spec str seed = combine (avalanche (foldl lane_mix (lane_seeds seed) str))"

section \<open>Fragment extractor\<close>

text \<open>
  The editor's document, as far as the extension reads it: its URI, its lines
  (\<open>lineCount\<close>, \<open>lineAt(i).text\<close>) and the line separator \<open>getText\<close> joins
  them with.
\<close>

record text_document =
  doc_uri :: jsstring
  doc_lines :: "jsstring list"
  doc_eol :: jsstring

text \<open>
  \<open>vscode.Range\<close>: a start and an end position. Its constructor refuses a negative
  line or character (the \<open>Position\<close> constructor throws) and swaps the two positions
  when the start is not before the end.
\<close>

record vs_range =
  start_line :: nat
  start_character :: nat
  end_line :: nat
  end_character :: nat

definition vscode_Range :: "int \<Rightarrow> int \<Rightarrow> int \<Rightarrow> int \<Rightarrow> vs_range option" where
  "vscode_Range startLine startCharacter endLine endCharacter =
     (if startLine < 0 \<or> startCharacter < 0 \<or> endLine < 0 \<or> endCharacter < 0 then None
      else if startLine < endLine \<or> (startLine = endLine \<and> startCharacter < endCharacter)
      then Some \<lparr>start_line = nat startLine, start_character = nat startCharacter,
                 end_line = nat endLine, end_character = nat endCharacter\<rparr>
      else Some \<lparr>start_line = nat endLine, start_character = nat endCharacter,
                 end_line = nat startLine, end_character = nat startCharacter\<rparr>)"

text \<open>
  The delimiters. In the source they are written \<open>'hasql\|'\<close> and \<open>'\|\]'\<close>; the
  backslashes escape nothing, so the strings are \<open>hasql|\<close> and \<open>|]\<close>.
\<close>

definition HASKELL_HASQL :: jsstring where
  "HASKELL_HASQL = js ''hasql|''"

definition HASKELL_HASQL_END :: jsstring where
  "HASKELL_HASQL_END = js ''|]''"

text \<open>
  The variables of \<open>getHasqlContent\<close>. \<open>sqlStringBound\<close> is \<open>null\<close> (\<open>None\<close>) at
  first, then the end delimiter or the empty string.
\<close>

record scan =
  result :: "vs_range list"
  startRangePosition :: int
  sqlStringBound :: "jsstring option"
  sqlStartLineIndex :: int

text \<open>The body of the loop over the lines, at line \<open>lineIndex\<close>.\<close>

definition scan_line :: "jsstring \<Rightarrow> int \<Rightarrow> scan \<Rightarrow> scan option" where
  "scan_line lineOfText lineIndex s =
     (let s1 =
        (if sqlStartLineIndex s = - 1
         then (let hasqlPatternStart = indexOf lineOfText HASKELL_HASQL in
               if hasqlPatternStart \<noteq> - 1
               then s\<lparr>startRangePosition := hasqlPatternStart + int (length HASKELL_HASQL),
                       sqlStringBound := Some HASKELL_HASQL_END,
                       sqlStartLineIndex := lineIndex\<rparr>
               else s)
         else s)
      in (case sqlStringBound s1 of
            None \<Rightarrow> Some s1
          | Some bound \<Rightarrow>
              if bound \<noteq> []
              then (let endSqlIndex = indexOf lineOfText bound in
                    if endSqlIndex \<noteq> - 1
                    then (case vscode_Range (sqlStartLineIndex s1) (startRangePosition s1)
                                 lineIndex endSqlIndex of
                            None \<Rightarrow> None
                          | Some r \<Rightarrow>
                              Some (s1\<lparr>result := result s1 @ [r],
                                        sqlStartLineIndex := - 1,
                                        sqlStringBound := Some []\<rparr>))
                    else Some s1)
              else Some s1))"

fun scan_lines :: "jsstring list \<Rightarrow> int \<Rightarrow> scan \<Rightarrow> scan option" where
  "scan_lines [] lineIndex s = Some s"
| "scan_lines (lineOfText # rest) lineIndex s =
     (case scan_line lineOfText lineIndex s of
        None \<Rightarrow> None
      | Some s' \<Rightarrow> scan_lines rest (lineIndex + 1) s')"

definition scan_init :: scan where
  "scan_init = \<lparr>result = [], startRangePosition = - 1, sqlStringBound = None,
                 sqlStartLineIndex = - 1\<rparr>"

text \<open>
  \<open>getHasqlContent\<close>: the ranges and the flag; \<open>None\<close> when the \<open>Range\<close>
  constructor throws.
\<close>

definition getHasqlContent :: "text_document \<Rightarrow> (vs_range list \<times> bool) option" where
  "getHasqlContent doc =
     (case scan_lines (doc_lines doc) 0 scan_init of
        None \<Rightarrow> None
      | Some s \<Rightarrow>
          if sqlStringBound s \<noteq> Some [] then Some (result s, False)
          else Some (result s, True))"

section \<open>Query rewriter\<close>

text \<open>
  \<open>normalizeEnding\<close>: trim the end, then append \<open>';'\<close> (code unit 59) unless the
  last character, \<open>trimmed[trimmed.length-1]\<close>, is one.
\<close>

definition normalizeEnding :: "jsstring \<Rightarrow> jsstring" where
  "normalizeEnding v =
     (let trimmed = trimEnd v;
          isEnded = (char_at trimmed (int (length trimmed) - 1) = Some 59)
      in trimmed @ (if isEnded then [] else [59]))"

text \<open>
  \<open>wrapExpressionInSyntaxCheck\<close> and \<open>wrapExpressionInExplainCheck\<close>: the script,
  and the line (1, or 2 for a fragment with a line feed) of the returned position. The
  template literals break their lines with a line feed (code unit 10).
\<close>

definition wrapExpressionInSyntaxCheck :: "jsstring \<Rightarrow> jsstring \<times> nat" where
  "wrapExpressionInSyntaxCheck v =
     (let isMultiLine = includes_js v [10];
          normalized = normalizeEnding v
      in (trim (js ''DO $SYNTAX_CHECK$ BEGIN RETURN;'' @ [10] @ normalized @ [10] @
                js ''END; $SYNTAX_CHECK$;'' @ [10]),
          1 + (if isMultiLine then 1 else 0)))"

definition wrapExpressionInExplainCheck :: "jsstring \<Rightarrow> jsstring \<times> nat" where
  "wrapExpressionInExplainCheck v =
     (let isMultiLine = includes_js v [10];
          normalized = normalizeEnding v
      in (trim ([10] @ js ''EXPLAIN'' @ [10] @ normalized @ [10]),
          1 + (if isMultiLine then 1 else 0)))"

text \<open>\<open>xs.join(sep)\<close> on an array of strings.\<close>

fun join_js :: "jsstring \<Rightarrow> jsstring list \<Rightarrow> jsstring" where
  "join_js sep [] = []"
| "join_js sep [x] = x"
| "join_js sep (x # y # ys) = x @ sep @ join_js sep (y # ys)"

text \<open>
  \<open>wrapExpressionInPrepareCheck\<close> of the later generation of the extension: the
  parameter types are declared in the \<open>PREPARE\<close> statement.
\<close>

definition wrapExpressionInPrepareCheck :: "jsstring \<Rightarrow> jsstring list \<Rightarrow> jsstring \<times> nat" where
  "wrapExpressionInPrepareCheck v types =
     (let isMultiLine = includes_js v [10];
          normalized = normalizeEnding v;
          typesInPrepare = (if length types = 0 then js ''q''
                            else js ''q('' @ join_js (js '', '') types @ js '')'')
      in (trim ([10] @ js ''DEALLOCATE ALL; PREPARE '' @ typesInPrepare @ js '' AS'' @ [10] @
                normalized @ [10]),
          1 + (if isMultiLine then 1 else 0)))"

subsection \<open>Positional parameters\<close>

text \<open>
  \<open>expression.matchAll(/(\$[1-9][0-9]*)/g)\<close>, each match by its text: a dollar sign
  (code unit 36), a digit from 1 to 9, then as many digits as follow; the search goes on
  behind the match.
\<close>

definition is_digit :: "jschar \<Rightarrow> bool" where
  "is_digit c = (48 \<le> c \<and> c \<le> 57)"

definition is_digit19 :: "jschar \<Rightarrow> bool" where
  "is_digit19 c = (49 \<le> c \<and> c \<le> 57)"

function matchAll_params :: "jsstring \<Rightarrow> jsstring list" where
  "matchAll_params [] = []"
| "matchAll_params (c # cs) =
     (if c = 36 \<and> cs \<noteq> [] \<and> is_digit19 (hd cs)
      then (36 # takeWhile is_digit cs) # matchAll_params (dropWhile is_digit cs)
      else matchAll_params cs)"
  by pat_completeness auto
termination
  by (relation "measure length") (auto simp: length_dropWhile_le less_Suc_eq_le)

text \<open>\<open>new Set(...).size\<close>: the number of distinct matches.\<close>

definition count_parameters :: "jsstring \<Rightarrow> nat" where
  "count_parameters expression = length (remdups (matchAll_params expression))"

subsection \<open>Override values and objects\<close>

text \<open>
  The scalar values a configuration file holds. A number is an integer here.
\<close>

datatype jsval = JNull | JBool bool | JNum int | JStr jsstring

fun truthy :: "jsval \<Rightarrow> bool" where
  "truthy JNull = False"
| "truthy (JBool b) = b"
| "truthy (JNum n) = (n \<noteq> 0)"
| "truthy (JStr s) = (s \<noteq> [])"

text \<open>
  An object keyed by positional parameter numbers: its properties, each key once.
  \<open>obj[k]\<close> is \<open>map_of obj k\<close> (\<open>None\<close> for \<open>undefined\<close>), and
  \<open>Object.keys\<close> lists integer keys in ascending order, as it does the keys that
  are array indices (the numbers below \<open>2 ^ 32 - 1\<close> in decimal notation, which
  parameter positions are). Property names of another form are not covered here.
\<close>

type_synonym 'v js_object = "(nat \<times> 'v) list"

definition object_keys :: "'v js_object \<Rightarrow> nat list" where
  "object_keys obj = sort (remdups (map fst obj))"

subsection \<open>The explain check\<close>

text \<open>
  \<open>Array(parameters).fill(null).map((v, i) => predefinedValues[i+1] ? predefinedValues[i+1] : v)\<close>,
  the values bound to the parameters of the statement.
\<close>

definition explain_parameterValues :: "jsval js_object \<Rightarrow> jsstring \<Rightarrow> jsval list" where
  "explain_parameterValues predefinedValues expression =
     map (\<lambda>i. case map_of predefinedValues (i + 1) of
                 Some v \<Rightarrow> if truthy v then v else JNull
               | None \<Rightarrow> JNull)
         [0 ..< count_parameters expression]"

text \<open>
  The replacement text of \<open>String.prototype.replace\<close> for a pattern without capture
  groups: \<open>$$\<close> stands for a dollar sign, \<open>$&\<close> for the match, \<open>$`\<close> (code unit
  96) for the text before the match and \<open>$'\<close> (code unit 39) for the text after it;
  every other character, a dollar sign before a digit too, stands for itself.
\<close>

fun expand_replacement :: "jsstring \<Rightarrow> jsstring \<Rightarrow> jsstring \<Rightarrow> jsstring \<Rightarrow> jsstring" where
  "expand_replacement [] matched before after = []"
| "expand_replacement [c] matched before after = [c]"
| "expand_replacement (c # d # r) matched before after =
     (if c = 36 \<and> d = 36 then 36 # expand_replacement r matched before after
      else if c = 36 \<and> d = 38 then matched @ expand_replacement r matched before after
      else if c = 36 \<and> d = 96 then before @ expand_replacement r matched before after
      else if c = 36 \<and> d = 39 then after @ expand_replacement r matched before after
      else c # expand_replacement (d # r) matched before after)"

text \<open>
  \<open>acc.replace(new RegExp(pattern, "gm"), replacement)\<close> for a pattern that matches the
  literal text \<open>p # ps\<close>: every occurrence, from left to right, the search going on
  behind each match. \<open>before\<close> is the part of the string already passed.
\<close>

function replace_from :: "jschar \<Rightarrow> jsstring \<Rightarrow> jsstring \<Rightarrow> jsstring \<Rightarrow> jsstring \<Rightarrow> jsstring" where
  "replace_from p ps replacement before [] = []"
| "replace_from p ps replacement before (c # cs) =
     (if prefix (p # ps) (c # cs)
      then expand_replacement replacement (p # ps) before (drop (length ps) cs) @
           replace_from p ps replacement (before @ p # ps) (drop (length ps) cs)
      else c # replace_from p ps replacement (before @ [c]) cs)"
  by pat_completeness auto
termination
  by (relation "measure (\<lambda>(p, ps, replacement, before, s). length s)") auto

text \<open>
  One step of the \<open>reduce\<close> over the keys of \<open>predefinedTypes\<close>: the pattern is
  \<open>\$\<close> followed by the digits of the position, the replacement
  \<open>$position::type\<close>.
\<close>

definition annotate_position :: "jsstring js_object \<Rightarrow> jsstring \<Rightarrow> nat \<Rightarrow> jsstring" where
  "annotate_position predefinedTypes acc position =
     replace_from 36 (digits_of position)
       ([36] @ digits_of position @ js ''::'' @
        (case map_of predefinedTypes position of Some t \<Rightarrow> t | None \<Rightarrow> js ''undefined''))
       [] acc"

definition explain_actualQuery :: "jsstring js_object \<Rightarrow> jsstring \<Rightarrow> jsstring" where
  "explain_actualQuery predefinedTypes expression =
     foldl (annotate_position predefinedTypes) (fst (wrapExpressionInExplainCheck expression))
       (object_keys predefinedTypes)"

subsection \<open>The prepare check\<close>

text \<open>
  \<open>Array(parameters).fill('unknown').map((v, i) => predefinedTypes[i+1] ? predefinedTypes[i+1] : v)\<close>
  of \<open>runPrepareCheck\<close>, and the statement it sends.
\<close>

definition prepare_parameterValues :: "jsstring js_object \<Rightarrow> jsstring \<Rightarrow> jsstring list" where
  "prepare_parameterValues predefinedTypes expression =
     map (\<lambda>i. case map_of predefinedTypes (i + 1) of
                 Some t \<Rightarrow> if t \<noteq> [] then t else js ''unknown''
               | None \<Rightarrow> js ''unknown'')
         [0 ..< count_parameters expression]"

definition prepare_testExpression :: "jsstring js_object \<Rightarrow> jsstring \<Rightarrow> jsstring" where
  "prepare_testExpression predefinedTypes expression =
     fst (wrapExpressionInPrepareCheck expression (prepare_parameterValues predefinedTypes expression))"

section \<open>Override resolver\<close>

text \<open>
  The override tables are nested objects that the configuration, the resolver and its
  callers share, so they live in a heap: a list of objects. An object has its own
  properties and a prototype; a value is a reference to an object, a scalar, or
  \<open>Native\<close>, a function or object of the runtime (these have no enumerable property
  of their own). The objects of a configuration are data: their properties are
  enumerable and writable, and their prototype is \<open>Object.prototype\<close>. \<open>{}\<close> allocates
  a new object behind the last one.
\<close>

datatype hval = Ref nat | Prim jsval | Native

datatype prototype = ObjectPrototype | NullPrototype | Prototype nat

record hobject =
  own :: "(jsstring \<times> hval) list"
  proto :: prototype

type_synonym heap = "hobject list"

definition new_object :: hobject where
  "new_object = \<lparr>own = [], proto = ObjectPrototype\<rparr>"

definition obj_at :: "heap \<Rightarrow> nat \<Rightarrow> hobject" where
  "obj_at heap a = (if a < length heap then heap ! a else new_object)"

text \<open>
  The properties of \<open>Object.prototype\<close>, which every object inherits that has it at
  the end of its prototype chain: functions of the runtime, and the accessor
  \<open>__proto__\<close>, whose getter gives \<open>Object.prototype\<close> itself for a data object.
\<close>

definition object_prototype_names :: "jsstring list" where
  "object_prototype_names =
     map js [''constructor'', ''hasOwnProperty'', ''isPrototypeOf'', ''propertyIsEnumerable'',
             ''toLocaleString'', ''toString'', ''valueOf'', ''__proto__'',
             ''__defineGetter__'', ''__defineSetter__'', ''__lookupGetter__'',
             ''__lookupSetter__'']"

definition object_prototype :: "jsstring \<Rightarrow> hval option" where
  "object_prototype key = (if key \<in> set object_prototype_names then Some Native else None)"

text \<open>
  \<open>obj[key]\<close>: the property of the object itself, or else of the first object of its
  prototype chain that has it; \<open>None\<close> is \<open>undefined\<close>. A prototype is an object that
  was allocated before the object it serves: the only prototype this program sets is
  that of a new copy.
\<close>

function get_property :: "heap \<Rightarrow> nat \<Rightarrow> jsstring \<Rightarrow> hval option" where
  "get_property heap a key =
     (case map_of (own (obj_at heap a)) key of
        Some v \<Rightarrow> Some v
      | None \<Rightarrow>
          (case proto (obj_at heap a) of
             ObjectPrototype \<Rightarrow> object_prototype key
           | NullPrototype \<Rightarrow> None
           | Prototype p \<Rightarrow> if p < a then get_property heap p key else None))"
  by pat_completeness auto

termination
  by (relation "measure (\<lambda>(heap, a, key). a)") auto

declare get_property.simps [simp del]

text \<open>The index properties \<open>Object.assign\<close> copies from a string.\<close>

definition index_properties :: "jsstring \<Rightarrow> (jsstring \<times> hval) list" where
  "index_properties s = map (\<lambda>i. (digits_of i, Prim (JStr [s ! i]))) [0 ..< length s]"

text \<open>\<open>obj[key] ?? {}\<close>: the property, or a new empty object when it is \<open>undefined\<close> or \<open>null\<close>.\<close>

definition get_or_empty :: "heap \<Rightarrow> nat \<Rightarrow> jsstring \<Rightarrow> heap \<times> hval" where
  "get_or_empty heap obj key =
     (case get_property heap obj key of
        None \<Rightarrow> (heap @ [new_object], Ref (length heap))
      | Some (Prim JNull) \<Rightarrow> (heap @ [new_object], Ref (length heap))
      | Some v \<Rightarrow> (heap, v))"

text \<open>
  \<open>Object.assign({}, source)\<close> for a data object \<open>source\<close>: every own property of the
  source is set on the new object. Setting \<open>__proto__\<close> on it reaches the setter of
  \<open>Object.prototype\<close>, which makes no property: it changes the prototype of the new
  object to the value when this is an object or \<open>null\<close>, and does nothing otherwise.
  Every other property becomes a property of the new object, with the value as it is:
  a property that refers to an object refers to the same object in the copy.
\<close>

definition object_assign :: "hobject \<Rightarrow> hobject" where
  "object_assign source =
     \<lparr>own = filter (\<lambda>p. fst p \<noteq> js ''__proto__'') (own source),
      proto = (case map_of (own source) (js ''__proto__'') of
                 Some (Ref p) \<Rightarrow> Prototype p
               | Some (Prim JNull) \<Rightarrow> NullPrototype
               | _ \<Rightarrow> ObjectPrototype)\<rparr>"

text \<open>
  \<open>getSubstitutionsForDocument\<close>, with \<open>key\<close> the relative path of the document:
  \<open>Object.assign({}, casts[key] ?? {})\<close> allocates the target, reads the source and
  copies its properties into the target. A string has its characters as properties; a
  number, a boolean and a function of the runtime have none to copy.
\<close>

definition getSubstitutionsForDocument :: "heap \<Rightarrow> nat \<Rightarrow> jsstring \<Rightarrow> heap \<times> nat" where
  "getSubstitutionsForDocument heap casts key =
     (let target = length heap;
          heap1 = heap @ [new_object]
      in case get_or_empty heap1 casts key of
           (heap2, source) \<Rightarrow>
             (heap2[target := (case source of
                                 Ref a \<Rightarrow> object_assign (obj_at heap2 a)
                               | Prim (JStr s) \<Rightarrow> \<lparr>own = index_properties s, proto = ObjectPrototype\<rparr>
                               | Prim v \<Rightarrow> new_object
                               | Native \<Rightarrow> new_object)],
              target))"

text \<open>
  The whole lookup for a file and a fragment identity: the copy of the file's entry,
  then \<open>typeCasts[expressionHash] ?? {}\<close> in \<open>runValidation\<close>. The property key of a
  number is its decimal text.
\<close>

definition resolve :: "heap \<Rightarrow> nat \<Rightarrow> jsstring \<Rightarrow> nat \<Rightarrow> heap \<times> hval" where
  "resolve heap casts key expressionHash =
     (case getSubstitutionsForDocument heap casts key of
        (heap1, typeCasts) \<Rightarrow> get_or_empty heap1 typeCasts (digits_of expressionHash))"

text \<open>
  What a caller does when it writes \<open>obj[key] = v\<close> to a data object, for a key other
  than \<open>__proto__\<close>: the object gets the property, or has its value replaced.
\<close>

definition set_property :: "heap \<Rightarrow> nat \<Rightarrow> jsstring \<Rightarrow> hval \<Rightarrow> heap" where
  "set_property heap a key v =
     (if a < length heap
      then heap[a := (heap ! a)\<lparr>own := AList.update key v (own (heap ! a))\<rparr>]
      else heap)"

text \<open>A data object with the given properties.\<close>

definition data_object :: "(jsstring \<times> hval) list \<Rightarrow> hobject" where
  "data_object ps = \<lparr>own = ps, proto = ObjectPrototype\<rparr>"

section \<open>Validation orchestrator\<close>

subsection \<open>The collaborators\<close>

text \<open>
  \<open>document.getText(range)\<close> for a range inside the document: the text between the
  two positions, the lines joined with the document's line separator.
\<close>

definition line_at :: "text_document \<Rightarrow> nat \<Rightarrow> jsstring" where
  "line_at doc i = (if i < length (doc_lines doc) then doc_lines doc ! i else [])"

definition getText :: "text_document \<Rightarrow> vs_range \<Rightarrow> jsstring" where
  "getText doc r =
     (if start_line r = end_line r \<and> start_character r = end_character r then []
      else if start_line r = end_line r
      then take (end_character r - start_character r)
             (drop (start_character r) (line_at doc (start_line r)))
      else join_js (doc_eol doc)
             ([drop (start_character r) (line_at doc (start_line r))] @
              map (line_at doc) [start_line r + 1 ..< end_line r] @
              [take (end_character r) (line_at doc (end_line r))]))"

text \<open>
  The database: what \<open>pool.query\<close> answers to a statement and its bound values
  (\<open>None\<close> when the call passes none): \<open>None\<close> for a result, or the error it
  fails with.
\<close>

record DatabaseError =
  err_message :: jsstring
  err_hint :: "jsstring option"

type_synonym pool = "jsstring \<Rightarrow> jsval list option \<Rightarrow> DatabaseError option"

record diagnostic =
  diag_range :: vs_range
  diag_message :: jsstring

text \<open>
  The lines the extension appends to its output channel, each by its template and the
  values the template interpolates:
  \<^item> \<open>LogParseFailed\<close>: \<open>Failed to parse the document: some expressions seemed to be disclosed.\<close>
  \<^item> \<open>LogDetected n uri\<close>: \<open>Detected n psql expressions at the document: uri!\<close>
  \<^item> \<open>LogScript hostLine hash script\<close>: \<open>Validation script for line hostLine expression (hash) is ...\<close>
  \<^item> \<open>LogTypes hostLine\<close>: \<open>Script line hostLine has types substitutions, its origin query will be changed\<close>
  \<^item> \<open>LogDefaults hostLine values\<close>: \<open>Script line hostLine has default values, ...\<close>
  \<^item> \<open>LogHash hash line essential\<close>: \<open>Hash hash generated for query at line line: essential!\<close>
  \<^item> \<open>LogCorrect m n\<close>: \<open>Expressions correct m/n!\<close>
\<close>

datatype log_line =
    LogParseFailed
  | LogDetected nat jsstring
  | LogScript nat nat jsstring
  | LogTypes nat
  | LogDefaults nat "jsval list"
  | LogHash nat nat jsstring
  | LogCorrect nat nat

subsection \<open>Fragment identity\<close>

text \<open>\<open>replace(/(\r\n|\n|\r)/gm, "")\<close>: CR LF pairs, line feeds and carriage returns go.\<close>

fun strip_line_breaks :: "jsstring \<Rightarrow> jsstring" where
  "strip_line_breaks [] = []"
| "strip_line_breaks [c] = (if c = 10 \<or> c = 13 then [] else [c])"
| "strip_line_breaks (c # d # r) =
     (if c = 13 \<and> d = 10 then strip_line_breaks r
      else if c = 10 \<or> c = 13 then strip_line_breaks (d # r)
      else c # strip_line_breaks (d # r))"

text \<open>
  \<open>expression.replace(/(\r\n|\n|\r)/gm, "").replace(/\s/g, '').trim().toLocaleLowerCase()\<close>.
  \<open>toLocaleLowerCase\<close> belongs to the runtime and follows its locale: it is the
  parameter \<open>toLocaleLowerCase\<close> here, a function on strings.
\<close>

definition expressionEssential :: "(jsstring \<Rightarrow> jsstring) \<Rightarrow> jsstring \<Rightarrow> jsstring" where
  "expressionEssential toLocaleLowerCase expression =
     toLocaleLowerCase (trim (filter (\<lambda>c. \<not> is_space c) (strip_line_breaks expression)))"

subsection \<open>The two checks\<close>

definition runSyntaxCheck ::
  "jsstring \<Rightarrow> nat \<Rightarrow> vs_range \<Rightarrow> pool \<Rightarrow> log_line list \<times> DatabaseError option" where
  "runSyntaxCheck expression expressionHash h pool =
     (case wrapExpressionInSyntaxCheck expression of
        (testExpression, line) \<Rightarrow>
          (let hostLine = start_line h + line
           in ([LogScript hostLine expressionHash testExpression], pool testExpression None)))"

definition runExplainCheck ::
  "jsstring js_object \<Rightarrow> jsval js_object \<Rightarrow> jsstring \<Rightarrow> nat \<Rightarrow> vs_range \<Rightarrow> pool \<Rightarrow>
   log_line list \<times> DatabaseError option" where
  "runExplainCheck predefinedTypes predefinedValues expression expressionHash h pool =
     (case wrapExpressionInExplainCheck expression of
        (testExpression, line) \<Rightarrow>
          (let hostLine = start_line h + line;
               parameterValues = explain_parameterValues predefinedValues expression;
               knownTypes = object_keys predefinedTypes;
               actualQuery = explain_actualQuery predefinedTypes expression
           in ((if length knownTypes > 0 then [LogTypes hostLine] else []) @
               (if length (object_keys predefinedValues) > 0
                then [LogDefaults hostLine parameterValues] else []) @
               [LogScript hostLine expressionHash actualQuery],
               pool actualQuery (Some parameterValues))))"

subsection \<open>One fragment\<close>

text \<open>
  The values the callback of \<open>hasqls[0].map\<close> computes for the range \<open>h\<close>.
\<close>

definition expressionHash_of :: "(jsstring \<Rightarrow> jsstring) \<Rightarrow> text_document \<Rightarrow> vs_range \<Rightarrow> nat" where
  "expressionHash_of lower document h = cyrb53 (expressionEssential lower (getText document h)) 0"

definition or_empty :: "'v js_object option \<Rightarrow> 'v js_object" where
  "or_empty v = (case v of None \<Rightarrow> [] | Some obj \<Rightarrow> obj)"

definition syntaxError_of ::
  "(jsstring \<Rightarrow> jsstring) \<Rightarrow> text_document \<Rightarrow> pool \<Rightarrow> vs_range \<Rightarrow> DatabaseError option" where
  "syntaxError_of lower document pool h =
     snd (runSyntaxCheck (getText document h) (expressionHash_of lower document h) h pool)"

definition explainError_of ::
  "(jsstring \<Rightarrow> jsstring) \<Rightarrow> (nat \<rightharpoonup> jsstring js_object) \<Rightarrow> (nat \<rightharpoonup> jsval js_object) \<Rightarrow>
   text_document \<Rightarrow> pool \<Rightarrow> vs_range \<Rightarrow> DatabaseError option" where
  "explainError_of lower typeCasts defaultValues document pool h =
     (let expressionHash = expressionHash_of lower document h
      in snd (runExplainCheck (or_empty (typeCasts expressionHash))
                (or_empty (defaultValues expressionHash)) (getText document h) expressionHash h pool))"

text \<open>
  \<open>new vscode.Diagnostic(h, [`Query cyrb53 hash: ${expressionHash}`, actualError.message,
  actualError.hint].filter((v) => !!v).join('\n'))\<close>.
\<close>

definition new_Diagnostic :: "vs_range \<Rightarrow> nat \<Rightarrow> DatabaseError \<Rightarrow> diagnostic" where
  "new_Diagnostic h expressionHash actualError =
     \<lparr>diag_range = h,
      diag_message = join_js [10]
        (filter (\<lambda>v. v \<noteq> [])
           ([js ''Query cyrb53 hash: '' @ digits_of expressionHash, err_message actualError] @
            (case err_hint actualError of None \<Rightarrow> [] | Some t \<Rightarrow> [t])))\<rparr>"

subsection \<open>One pass\<close>

text \<open>
  The callbacks of all fragments run concurrently. Each one is suspended twice, at the
  query of its syntax check and at the query of its explain check, and goes on when the
  database has answered; the answers come in any order. A pass is driven by its
  schedule: the list of fragment indices in the order in which their pending queries
  complete. The state of a pass: the output channel, the diagnostic collection, the
  array \<open>diagnosticsCurrent\<close>, and where each callback stands.
\<close>

datatype phase = AwaitSyntax | AwaitExplain | Done bool

record pass =
  pass_log :: "log_line list"
  pass_diagnostics :: "jsstring \<rightharpoonup> diagnostic list"
  diagnosticsCurrent :: "diagnostic list"
  pass_phases :: "phase list"

text \<open>The callback up to its first suspension: the line \<open>runSyntaxCheck\<close> logs.\<close>

definition callback_start ::
  "(jsstring \<Rightarrow> jsstring) \<Rightarrow> text_document \<Rightarrow> pool \<Rightarrow> vs_range \<Rightarrow> log_line list" where
  "callback_start lower document pool h =
     fst (runSyntaxCheck (getText document h) (expressionHash_of lower document h) h pool)"

text \<open>
  The query of fragment \<open>i\<close> completes. After the syntax check the callback enters
  \<open>runExplainCheck\<close>, which logs and sends its query. After the explain check it logs the
  hash and returns \<open>true\<close>, or pushes a diagnostic, sets the collection and returns
  \<open>false\<close>. A fragment that waits for nothing has no completion (\<open>None\<close>).
\<close>

definition on_completion ::
  "(jsstring \<Rightarrow> jsstring) \<Rightarrow> (nat \<rightharpoonup> jsstring js_object) \<Rightarrow> (nat \<rightharpoonup> jsval js_object) \<Rightarrow>
   text_document \<Rightarrow> pool \<Rightarrow> vs_range list \<Rightarrow> nat \<Rightarrow> pass \<Rightarrow> pass option" where
  "on_completion lower typeCasts defaultValues document pool hs i p =
     (if i < length hs \<and> i < length (pass_phases p)
      then (let h = hs ! i;
                expression = getText document h;
                expressionHash = expressionHash_of lower document h;
                syntaxError = syntaxError_of lower document pool h;
                explainError = explainError_of lower typeCasts defaultValues document pool h
            in case pass_phases p ! i of
                 AwaitSyntax \<Rightarrow>
                   Some (p\<lparr>pass_log := pass_log p @
                              fst (runExplainCheck (or_empty (typeCasts expressionHash))
                                     (or_empty (defaultValues expressionHash)) expression
                                     expressionHash h pool),
                            pass_phases := (pass_phases p)[i := AwaitExplain]\<rparr>)
               | AwaitExplain \<Rightarrow>
                   (let log' = pass_log p @
                          [LogHash expressionHash (start_line h) (expressionEssential lower expression)]
                    in if syntaxError = None \<and> explainError = None
                       then Some (p\<lparr>pass_log := log', pass_phases := (pass_phases p)[i := Done True]\<rparr>)
                       else (let actualError = (case syntaxError of Some e \<Rightarrow> e
                                                | None \<Rightarrow> the explainError);
                                 current = diagnosticsCurrent p @
                                           [new_Diagnostic h expressionHash actualError]
                             in Some (p\<lparr>pass_log := log',
                                        diagnosticsCurrent := current,
                                        pass_diagnostics :=
                                          (pass_diagnostics p)(doc_uri document \<mapsto> current),
                                        pass_phases := (pass_phases p)[i := Done False]\<rparr>)))
               | Done b \<Rightarrow> None)
      else None)"

fun run_schedule ::
  "(jsstring \<Rightarrow> jsstring) \<Rightarrow> (nat \<rightharpoonup> jsstring js_object) \<Rightarrow> (nat \<rightharpoonup> jsval js_object) \<Rightarrow>
   text_document \<Rightarrow> pool \<Rightarrow> vs_range list \<Rightarrow> nat list \<Rightarrow> pass \<Rightarrow> pass option" where
  "run_schedule lower typeCasts defaultValues document pool hs [] p = Some p"
| "run_schedule lower typeCasts defaultValues document pool hs (i # schedule) p =
     (case on_completion lower typeCasts defaultValues document pool hs i p of
        None \<Rightarrow> None
      | Some p' \<Rightarrow> run_schedule lower typeCasts defaultValues document pool hs schedule p')"

fun is_done :: "phase \<Rightarrow> bool" where
  "is_done (Done b) = True"
| "is_done AwaitSyntax = False"
| "is_done AwaitExplain = False"

text \<open>
  \<open>runValidation\<close>: the output channel and the diagnostic collection when the pass has
  completed. \<open>None\<close>: the pass does not complete, because the extractor throws or
  because a callback still waits for the database at the end of the schedule
  (\<open>Promise.all\<close> stays pending).
\<close>

definition runValidation ::
  "(jsstring \<Rightarrow> jsstring) \<Rightarrow> (nat \<rightharpoonup> jsstring js_object) \<Rightarrow> (nat \<rightharpoonup> jsval js_object) \<Rightarrow>
   text_document \<Rightarrow> log_line list \<Rightarrow> pool \<Rightarrow> (jsstring \<rightharpoonup> diagnostic list) \<Rightarrow> nat list \<Rightarrow>
   (log_line list \<times> (jsstring \<rightharpoonup> diagnostic list)) option" where
  "runValidation lower typeCasts defaultValues document log pool diagnostics schedule =
     (case getHasqlContent document of
        None \<Rightarrow> None
      | Some hasqls \<Rightarrow>
          if \<not> snd hasqls then Some (log @ [LogParseFailed], diagnostics)
          else
            (let p0 = \<lparr>pass_log = log @ [LogDetected (length (fst hasqls)) (doc_uri document)] @
                                  concat (map (callback_start lower document pool) (fst hasqls)),
                       pass_diagnostics = diagnostics,
                       diagnosticsCurrent = [],
                       pass_phases = replicate (length (fst hasqls)) AwaitSyntax\<rparr>
             in case run_schedule lower typeCasts defaultValues document pool (fst hasqls) schedule p0 of
                  None \<Rightarrow> None
                | Some p \<Rightarrow>
                    if list_all is_done (pass_phases p)
                    then (let correctAmount = length (filter (\<lambda>v. v = Done True) (pass_phases p))
                          in Some (pass_log p @ [LogCorrect correctAmount (length (pass_phases p))],
                                   (pass_diagnostics p)(doc_uri document \<mapsto> diagnosticsCurrent p)))
                    else None))"

section \<open>Documents laid out in blocks\<close>

text \<open>
  The documents the statements about the extractor speak of are laid out in blocks of
  lines: a line without the start delimiter (\<open>Plain\<close>); a line with a start delimiter
  whose first end delimiter stands behind it (\<open>Single\<close>, a region on one line); and a
  region over several lines (\<open>Multi\<close>): a line with the start delimiter and no end
  delimiter, lines without the end delimiter, and a line with the end delimiter.
  No start delimiter stands behind the end delimiter of a region on the same line.
  \<open>block_spans n b\<close> is the span of the region of block \<open>b\<close> when its first line is
  line \<open>n\<close>: from behind the start delimiter to the end delimiter.
\<close>

datatype block = Plain jsstring | Single jsstring | Multi jsstring "jsstring list" jsstring

fun block_lines :: "block \<Rightarrow> jsstring list" where
  "block_lines (Plain l) = [l]"
| "block_lines (Single l) = [l]"
| "block_lines (Multi a ms z) = a # ms @ [z]"

fun block_ok :: "block \<Rightarrow> bool" where
  "block_ok (Plain l) = (indexOf l HASKELL_HASQL = - 1)"
| "block_ok (Single l) =
     (indexOf l HASKELL_HASQL \<noteq> - 1 \<and> indexOf l HASKELL_HASQL_END \<noteq> - 1 \<and>
      indexOf l HASKELL_HASQL + 6 \<le> indexOf l HASKELL_HASQL_END \<and>
      indexOf (drop (nat (indexOf l HASKELL_HASQL_END) + 2) l) HASKELL_HASQL = - 1)"
| "block_ok (Multi a ms z) =
     (indexOf a HASKELL_HASQL \<noteq> - 1 \<and> indexOf a HASKELL_HASQL_END = - 1 \<and>
      list_all (\<lambda>m. indexOf m HASKELL_HASQL_END = - 1) ms \<and>
      indexOf z HASKELL_HASQL_END \<noteq> - 1 \<and>
      indexOf (drop (nat (indexOf z HASKELL_HASQL_END) + 2) z) HASKELL_HASQL = - 1)"

fun is_region :: "block \<Rightarrow> bool" where
  "is_region (Plain l) = False"
| "is_region (Single l) = True"
| "is_region (Multi a ms z) = True"

fun block_spans :: "nat \<Rightarrow> block \<Rightarrow> vs_range list" where
  "block_spans n (Plain l) = []"
| "block_spans n (Single l) =
     [\<lparr>start_line = n, start_character = nat (indexOf l HASKELL_HASQL + 6),
       end_line = n, end_character = nat (indexOf l HASKELL_HASQL_END)\<rparr>]"
| "block_spans n (Multi a ms z) =
     [\<lparr>start_line = n, start_character = nat (indexOf a HASKELL_HASQL + 6),
       end_line = n + length ms + 1, end_character = nat (indexOf z HASKELL_HASQL_END)\<rparr>]"

fun layout_spans :: "nat \<Rightarrow> block list \<Rightarrow> vs_range list" where
  "layout_spans n [] = []"
| "layout_spans n (b # bs) = block_spans n b @ layout_spans (n + length (block_lines b)) bs"

definition layout :: "block list \<Rightarrow> jsstring list" where
  "layout bs = concat (map block_lines bs)"

definition span_ok :: "vs_range \<Rightarrow> bool" where
  "span_ok r = (start_line r < end_line r \<or>
               (start_line r = end_line r \<and> start_character r \<le> end_character r))"

definition span_before :: "vs_range \<Rightarrow> vs_range \<Rightarrow> bool" where
  "span_before r r' = (end_line r < start_line r' \<or>
               (end_line r = start_line r' \<and> end_character r \<le> start_character r'))"

definition outside :: "scan \<Rightarrow> bool" where
  "outside s = (sqlStartLineIndex s = - 1 \<and> (sqlStringBound s = None \<or> sqlStringBound s = Some []))"

text \<open>The states of the scan between two regions, and inside the region opened at line \<open>k\<close>.\<close>

definition inside :: "nat \<Rightarrow> nat \<Rightarrow> scan \<Rightarrow> bool" where
  "inside k c s = (sqlStartLineIndex s = int k \<and> startRangePosition s = int c \<and>
                   sqlStringBound s = Some HASKELL_HASQL_END)"

text \<open>
  The regions of a text as the specification words them, counted on the text itself:
  a start delimiter, then the next end delimiter behind it, and so on behind that one.
\<close>

function count_regions :: "bool \<Rightarrow> jsstring \<Rightarrow> nat" where
  "count_regions b [] = 0"
| "count_regions False (c # cs) =
     (if prefix HASKELL_HASQL (c # cs)
      then count_regions True (drop (length HASKELL_HASQL) (c # cs))
      else count_regions False cs)"
| "count_regions True (c # cs) =
     (if prefix HASKELL_HASQL_END (c # cs)
      then Suc (count_regions False (drop (length HASKELL_HASQL_END) (c # cs)))
      else count_regions True cs)"
  by pat_completeness auto
termination
  by (relation "measure (\<lambda>(i, s). length s)") (auto simp: HASKELL_HASQL_def HASKELL_HASQL_END_def js_def)

text \<open>
  For the proofs: the first index of a pattern as an optional natural number, the text
  of lines each behind a line feed, and the texts that are empty or start with a line
  feed.
\<close>

fun first_index :: "jsstring \<Rightarrow> jsstring \<Rightarrow> nat option" where
  "first_index [] pat = (if pat = [] then Some 0 else None)"
| "first_index (c # cs) pat =
     (if prefix pat (c # cs) then Some 0 else map_option Suc (first_index cs pat))"

definition nltext :: "jsstring list \<Rightarrow> jsstring" where
  "nltext ls = concat (map (\<lambda>l. 10 # l) ls)"

definition nl_tail :: "jsstring \<Rightarrow> bool" where
  "nl_tail t = (t = [] \<or> hd t = 10)"

text \<open>What the scan keeps: inside a region the start line and column are not negative.\<close>

definition scan_inv :: "scan \<Rightarrow> bool" where
  "scan_inv s = (case sqlStringBound s of
                   None \<Rightarrow> True
                 | Some b \<Rightarrow> b = [] \<or> (0 \<le> sqlStartLineIndex s \<and> 0 \<le> startRangePosition s))"

section \<open>Outcome of a pass\<close>

text \<open>
  The error of a fragment (\<open>syntaxError || explainError\<close>), its diagnostic, and the
  schedules on which a pass over \<open>n\<close> fragments completes: each fragment has two
  completions.
\<close>

definition actualError_of ::
  "(jsstring \<Rightarrow> jsstring) \<Rightarrow> (nat \<rightharpoonup> jsstring js_object) \<Rightarrow> (nat \<rightharpoonup> jsval js_object) \<Rightarrow>
   text_document \<Rightarrow> pool \<Rightarrow> vs_range \<Rightarrow> DatabaseError option" where
  "actualError_of lower typeCasts defaultValues document pool h =
     (case syntaxError_of lower document pool h of
        Some e \<Rightarrow> Some e
      | None \<Rightarrow> explainError_of lower typeCasts defaultValues document pool h)"

definition diagnostic_of ::
  "(jsstring \<Rightarrow> jsstring) \<Rightarrow> (nat \<rightharpoonup> jsstring js_object) \<Rightarrow> (nat \<rightharpoonup> jsval js_object) \<Rightarrow>
   text_document \<Rightarrow> pool \<Rightarrow> vs_range \<Rightarrow> diagnostic option" where
  "diagnostic_of lower typeCasts defaultValues document pool h =
     (case actualError_of lower typeCasts defaultValues document pool h of
        None \<Rightarrow> None
      | Some e \<Rightarrow> Some (new_Diagnostic h (expressionHash_of lower document h) e))"

definition complete_schedule :: "nat \<Rightarrow> nat list \<Rightarrow> bool" where
  "complete_schedule n schedule =
     (list_all (\<lambda>i. i < n) schedule \<and> list_all (\<lambda>i. count_list schedule i = 2) [0 ..< n])"

fun rank :: "phase \<Rightarrow> nat" where
  "rank AwaitSyntax = 0"
| "rank AwaitExplain = 1"
| "rank (Done b) = 2"

definition done_indices :: "pass \<Rightarrow> nat \<Rightarrow> nat list" where
  "done_indices p n = filter (\<lambda>j. is_done (pass_phases p ! j)) [0 ..< n]"

definition pass_inv ::
  "(nat \<Rightarrow> diagnostic option) \<Rightarrow> nat \<Rightarrow> pass \<Rightarrow> bool" where
  "pass_inv g n p =
     (length (pass_phases p) = n \<and>
      mset (diagnosticsCurrent p) = mset (List.map_filter g (done_indices p n)))"

text \<open>
  An example: a document with two fragments, the first one given; a database that
  rejects every statement with the text \<open>selec \<close>; and a collection that holds a
  diagnostic of an earlier pass for the document.
\<close>

definition example_document :: "jsstring \<Rightarrow> text_document" where
  "example_document fragment =
     \<lparr>doc_uri = js ''file:///Q.hs'',
      doc_lines = [js ''a = [hasql| '' @ fragment @ js '' |]'', js ''b = [hasql| select 2 |]''],
      doc_eol = [10]\<rparr>"

definition example_pool :: pool where
  "example_pool sql params =
     (if includes_js sql (js ''selec '')
      then Some \<lparr>err_message = js ''syntax error'', err_hint = None\<rparr> else None)"

definition example_stale :: "jsstring \<rightharpoonup> diagnostic list" where
  "example_stale =
     [js ''file:///Q.hs'' \<mapsto>
        [\<lparr>diag_range = \<lparr>start_line = 7, start_character = 0, end_line = 7, end_character = 1\<rparr>,
          diag_message = js ''stale''\<rparr>]]"

section \<open>Fragments that differ in layout and letter case\<close>





subsection \<open>Lower-casing of Latin and Greek letters\<close>










section \<open>Positional parameter tokens\<close>

text \<open>
  The tokens of a text as the specification words them: a dollar sign followed by
  digits, as many as follow.
\<close>

definition dollar_digits_tokens :: "jsstring \<Rightarrow> jsstring set" where
  "dollar_digits_tokens s =
     {t. \<exists>pre ds post. t = 36 # ds \<and> s = pre @ 36 # ds @ post \<and> ds \<noteq> [] \<and>
          list_all is_digit ds \<and> \<not> (post \<noteq> [] \<and> is_digit (hd post))}"

text \<open>The same with a first digit from 1 to 9.\<close>

definition parameter_tokens :: "jsstring \<Rightarrow> jsstring set" where
  "parameter_tokens s =
     {t. \<exists>pre ds post. t = 36 # ds \<and> s = pre @ 36 # ds @ post \<and> ds \<noteq> [] \<and>
          is_digit19 (hd ds) \<and> list_all is_digit ds \<and> \<not> (post \<noteq> [] \<and> is_digit (hd post))}"

section \<open>Properties of the fragment hasher\<close>

lemma cyrb53_loop_drop:
  "cyrb53_loop str i h1 h2 = foldl lane_mix (h1, h2) (drop i str)"
proof (induction str i h1 h2 rule: cyrb53_loop.induct)
  case (1 str i h1 h2)
  show ?case
  proof (cases "i < length str")
    case True
    then have d: "drop i str = str ! i # drop (Suc i) str"
      by (simp add: Cons_nth_drop_Suc)
    have "cyrb53_loop str i h1 h2 =
          cyrb53_loop str (i + 1) (imul (h1 XOR ucast (str ! i)) 2654435761)
            (imul (h2 XOR ucast (str ! i)) 1597334677)"
      using True by (subst cyrb53_loop.simps) (simp add: Let_def)
    also have "\<dots> = foldl lane_mix (lane_mix (h1, h2) (str ! i)) (drop (Suc i) str)"
    proof -
      have m: "lane_mix (h1, h2) (str ! i) =
          (imul (h1 XOR ucast (str ! i)) 2654435761, imul (h2 XOR ucast (str ! i)) 1597334677)"
        by (simp add: lane_mix_def)
      show ?thesis
        using "1" [OF True refl] by (simp only: m Suc_eq_plus1)
    qed
    finally show ?thesis
      by (simp add: d)
  next
    case False
    then show ?thesis
      by (subst cyrb53_loop.simps) simp
  qed
qed

lemma combine_bound: "combine l < 2 ^ 53"
proof -
  have "snd l AND 2097151 \<le> 2097151"
    by (rule word_and_le1)
  then have a: "unat (snd l AND 2097151) \<le> 2097151"
    by (simp add: word_le_nat_alt)
  have b: "unat (fst l) < 2 ^ 32"
    using unsigned_less [of "fst l", where 'a = nat] by simp
  from a have "unat (snd l AND 2097151) * 2 ^ 32 \<le> 2097151 * (2 ^ 32 :: nat)"
    by (rule mult_le_mono1)
  with b show ?thesis
    by (simp add: combine_def)
qed

lemma cyrb53_eq_spec: "cyrb53 str seed = cyrb53_spec str seed"
  by (simp add: cyrb53_def cyrb53_spec_def cyrb53_loop_drop lane_seeds_def avalanche_def
      combine_def Let_def and.commute split: prod.split)

text \<open>
  Claim C1. The hasher is a function of the string and the seed alone (a HOL function:
  equal arguments give equal results, at every call); its result is a natural number
  strictly below \<open>2 ^ 53\<close>; it is the two-lane mix: lanes seeded with
  \<open>0xdeadbeef\<close> and \<open>0x41c6ce57\<close> XORed with the seed, a 32-bit multiply-xor
  per character, the cross-lane avalanche, and the combination
  \<open>high * 2 ^ 32 + lane 1\<close>, where the high bits of the result are the low 21 bits
  of lane 2 and lane 1 is read unsigned. The hash of the empty string at seed 0 is the
  constant 3338908027751811.
\<close>

theorem cyrb53_two_lane_mix:
  "cyrb53 str seed < 2 ^ 53 \<and>
   cyrb53 str seed = combine (avalanche (foldl lane_mix (lane_seeds seed) str)) \<and>
   cyrb53 [] 0 = 3338908027751811"
proof -
  have e: "cyrb53 str seed = combine (avalanche (foldl lane_mix (lane_seeds seed) str))"
    using cyrb53_eq_spec [of str seed] by (simp add: cyrb53_spec_def)
  have c: "cyrb53 [] 0 = 3338908027751811"
    by (simp add: cyrb53_def cyrb53_loop.simps imul_def)
  have b: "combine (avalanche (foldl lane_mix (lane_seeds seed) str)) < 2 ^ 53"
    by (rule combine_bound)
  from e c b show ?thesis
    by simp
qed

section \<open>Properties of the query rewriter\<close>

lemma trimEnd_split: "\<exists>w. v = trimEnd v @ w \<and> list_all is_space w"
proof -
  have "rev v = takeWhile is_space (rev v) @ dropWhile is_space (rev v)"
    by simp
  then have "v = rev (dropWhile is_space (rev v)) @ rev (takeWhile is_space (rev v))"
    by (metis rev_append rev_rev_ident)
  moreover have "list_all is_space (rev (takeWhile is_space (rev v)))"
    by (simp add: list_all_iff) (meson set_takeWhileD)
  ultimately show ?thesis
    unfolding trimEnd_def by blast
qed

lemma trimEnd_last: "trimEnd v \<noteq> [] \<Longrightarrow> \<not> is_space (last (trimEnd v))"
proof -
  assume n: "trimEnd v \<noteq> []"
  then have d: "dropWhile is_space (rev v) \<noteq> []"
    by (simp add: trimEnd_def)
  then have "\<not> is_space (hd (dropWhile is_space (rev v)))"
    by (rule hd_dropWhile)
  with d show ?thesis
    by (simp add: trimEnd_def last_rev)
qed

lemma char_at_last: "char_at s (int (length s) - 1) = (if s = [] then None else Some (last s))"
  by (cases s rule: rev_cases) (simp_all add: char_at_def nth_append)

text \<open>
  Claim C8. \<open>normalizeEnding v\<close> is \<open>v\<close> without its trailing white space (a prefix
  of \<open>v\<close>, what follows it in \<open>v\<close> is white space, and it does not end in white
  space), with \<open>';'\<close> appended exactly when that trimmed string does not end in
  \<open>';'\<close>; a trimmed string that ends in \<open>';'\<close> is returned as it is; and the
  result always ends in \<open>';'\<close>.
\<close>

theorem normalizeEnding_terminated:
  "normalizeEnding v =
     (if trimEnd v \<noteq> [] \<and> last (trimEnd v) = 59 then trimEnd v else trimEnd v @ [59]) \<and>
   normalizeEnding v \<noteq> [] \<and> last (normalizeEnding v) = 59 \<and>
   (\<exists>w. v = trimEnd v @ w \<and> list_all is_space w) \<and>
   \<not> (trimEnd v \<noteq> [] \<and> is_space (last (trimEnd v)))"
proof -
  have "normalizeEnding v =
     (if trimEnd v \<noteq> [] \<and> last (trimEnd v) = 59 then trimEnd v else trimEnd v @ [59])"
    by (simp add: normalizeEnding_def Let_def char_at_last)
  moreover from this have "normalizeEnding v \<noteq> [] \<and> last (normalizeEnding v) = 59"
    by (simp split: if_splits)
  ultimately show ?thesis
    using trimEnd_split [of v] trimEnd_last [of v] by blast
qed

theorem normalizeEnding_terminated_witness:
  "normalizeEnding (js ''select 1; '') = js ''select 1;'' \<and>
   normalizeEnding (js ''select 1 '') = js ''select 1;'' \<and>
   last (normalizeEnding (js ''select 1 '')) = 59"
proof -
  have t: "trimEnd (js ''select 1; '') = js ''select 1;''" "trimEnd (js ''select 1 '') = js ''select 1''"
    by (simp_all add: trimEnd_def js_def is_space_def)
  show ?thesis
    using normalizeEnding_terminated [of "js ''select 1; ''"]
      normalizeEnding_terminated [of "js ''select 1 ''"]
    by (simp add: t) (simp add: js_def)
qed

section \<open>Properties of the parameter count\<close>

lemma digit19_digit: "is_digit19 c \<Longrightarrow> is_digit c"
  unfolding is_digit19_def is_digit_def by unat_arith

lemma dollar_not_digit: "\<not> is_digit 36"
  by (simp add: is_digit_def)

lemma parameter_tokens_Nil: "parameter_tokens [] = {}"
  by (simp add: parameter_tokens_def)

lemma parameter_tokens_skip:
  assumes "\<not> (c = 36 \<and> cs \<noteq> [] \<and> is_digit19 (hd cs))"
  shows "parameter_tokens (c # cs) = parameter_tokens cs"
proof (intro set_eqI iffI)
  fix t assume "t \<in> parameter_tokens (c # cs)"
  then obtain pre ds post where t: "t = 36 # ds" "c # cs = pre @ 36 # ds @ post" "ds \<noteq> []"
      "is_digit19 (hd ds)" "list_all is_digit ds" "\<not> (post \<noteq> [] \<and> is_digit (hd post))"
    by (auto simp: parameter_tokens_def)
  show "t \<in> parameter_tokens cs"
  proof (cases pre)
    case Nil
    with t assms show ?thesis by auto
  next
    case (Cons p pre')
    with t have "cs = pre' @ 36 # ds @ post" by simp
    with t show ?thesis
      unfolding parameter_tokens_def by blast
  qed
next
  fix t assume "t \<in> parameter_tokens cs"
  then obtain pre ds post where t: "t = 36 # ds" "cs = pre @ 36 # ds @ post" "ds \<noteq> []"
      "is_digit19 (hd ds)" "list_all is_digit ds" "\<not> (post \<noteq> [] \<and> is_digit (hd post))"
    by (auto simp: parameter_tokens_def)
  then have "c # cs = (c # pre) @ 36 # ds @ post" by simp
  with t show "t \<in> parameter_tokens (c # cs)"
    unfolding parameter_tokens_def by blast
qed

lemma takeWhile_maximal:
  "list_all P ds \<Longrightarrow> \<not> (post \<noteq> [] \<and> P (hd post)) \<Longrightarrow> takeWhile P (ds @ post) = ds"
proof (induction ds)
  case Nil
  then show ?case by (cases post) simp_all
next
  case (Cons d ds)
  then show ?case by simp
qed

lemma split_at_stop:
  "\<not> P x \<Longrightarrow>
   \<exists>pre'. takeWhile P (pre @ x # rest) @ pre' = pre \<and>
          dropWhile P (pre @ x # rest) = pre' @ x # rest"
proof (induction pre)
  case Nil
  then show ?case by simp
next
  case (Cons p pre)
  then obtain pre' where 1: "takeWhile P (pre @ x # rest) @ pre' = pre"
      "dropWhile P (pre @ x # rest) = pre' @ x # rest"
    by blast
  show ?case
  proof (cases "P p")
    case True
    with 1 show ?thesis by simp
  next
    case False
    then show ?thesis by simp
  qed
qed

lemma parameter_tokens_match:
  assumes "cs \<noteq> []" "is_digit19 (hd cs)"
  shows "parameter_tokens (36 # cs) =
         insert (36 # takeWhile is_digit cs) (parameter_tokens (dropWhile is_digit cs))"
proof (intro set_eqI iffI)
  fix t assume "t \<in> parameter_tokens (36 # cs)"
  then obtain pre ds post where t: "t = 36 # ds" "36 # cs = pre @ 36 # ds @ post" "ds \<noteq> []"
      "is_digit19 (hd ds)" "list_all is_digit ds" "\<not> (post \<noteq> [] \<and> is_digit (hd post))"
    by (auto simp: parameter_tokens_def)
  show "t \<in> insert (36 # takeWhile is_digit cs) (parameter_tokens (dropWhile is_digit cs))"
  proof (cases pre)
    case Nil
    with t have "cs = ds @ post" by simp
    with takeWhile_maximal [OF t(5,6)] t(1) show ?thesis by simp
  next
    case (Cons p pre')
    with t have cs: "cs = pre' @ 36 # ds @ post" by simp
    from split_at_stop [of is_digit 36 pre' "ds @ post", OF dollar_not_digit] obtain pre'' where
      "dropWhile is_digit cs = pre'' @ 36 # ds @ post"
      unfolding cs by blast
    with t have "t \<in> parameter_tokens (dropWhile is_digit cs)"
      unfolding parameter_tokens_def by blast
    then show ?thesis by simp
  qed
next
  fix t assume "t \<in> insert (36 # takeWhile is_digit cs) (parameter_tokens (dropWhile is_digit cs))"
  then consider "t = 36 # takeWhile is_digit cs" | "t \<in> parameter_tokens (dropWhile is_digit cs)"
    by auto
  then show "t \<in> parameter_tokens (36 # cs)"
  proof cases
    case 1
    from assms obtain d ds where c: "cs = d # ds" "is_digit19 d"
      by (cases cs) auto
    then have d: "is_digit d" by (simp add: digit19_digit)
    have "36 # cs = [] @ 36 # takeWhile is_digit cs @ dropWhile is_digit cs"
      by simp
    moreover have "takeWhile is_digit cs \<noteq> []" "is_digit19 (hd (takeWhile is_digit cs))"
      using c d by simp_all
    moreover have "list_all is_digit (takeWhile is_digit cs)"
      by (simp add: list_all_iff) (meson set_takeWhileD)
    moreover have "\<not> (dropWhile is_digit cs \<noteq> [] \<and> is_digit (hd (dropWhile is_digit cs)))"
      using hd_dropWhile [of is_digit cs] by blast
    ultimately show ?thesis
      unfolding parameter_tokens_def using 1 by blast
  next
    case 2
    then obtain pre ds post where t: "t = 36 # ds" "dropWhile is_digit cs = pre @ 36 # ds @ post"
        "ds \<noteq> []" "is_digit19 (hd ds)" "list_all is_digit ds"
        "\<not> (post \<noteq> [] \<and> is_digit (hd post))"
      by (auto simp: parameter_tokens_def)
    have "36 # cs = (36 # takeWhile is_digit cs @ pre) @ 36 # ds @ post"
      using t(2) takeWhile_dropWhile_id [of is_digit cs] by (metis append_Cons append_assoc)
    with t show ?thesis
      unfolding parameter_tokens_def by blast
  qed
qed

lemma matchAll_params_tokens: "set (matchAll_params s) = parameter_tokens s"
proof (induction s rule: matchAll_params.induct)
  case 1
  show ?case by (simp add: parameter_tokens_Nil)
next
  case (2 c cs)
  show ?case
  proof (cases "c = 36 \<and> cs \<noteq> [] \<and> is_digit19 (hd cs)")
    case True
    then have "matchAll_params (c # cs) =
        (36 # takeWhile is_digit cs) # matchAll_params (dropWhile is_digit cs)"
      by simp
    moreover from True have "parameter_tokens (c # cs) =
        insert (36 # takeWhile is_digit cs) (parameter_tokens (dropWhile is_digit cs))"
      by (simp add: parameter_tokens_match)
    ultimately show ?thesis
      using "2.IH"(1) [OF True] by simp
  next
    case False
    then have "matchAll_params (c # cs) = matchAll_params cs"
      by auto
    moreover have "parameter_tokens (c # cs) = parameter_tokens cs"
      by (rule parameter_tokens_skip [OF False])
    ultimately show ?thesis
      using "2.IH"(2) [OF False] by simp
  qed
qed

text \<open>
  Claim C7, as amended. The number of parameter slots of the explain check (the bound
  values) and of the prepare check (the declared types) is the number of distinct
  tokens of the fragment that consist of a dollar sign, a digit from 1 to 9 and the
  digits that follow it; a token that occurs again counts once.
\<close>

theorem count_parameters_distinct:
  "count_parameters expression = card (parameter_tokens expression) \<and>
   length (explain_parameterValues predefinedValues expression) = card (parameter_tokens expression) \<and>
   length (prepare_parameterValues predefinedTypes expression) = card (parameter_tokens expression)"
  by (simp add: count_parameters_def explain_parameterValues_def prepare_parameterValues_def
      length_remdups_card_conv matchAll_params_tokens)

theorem count_parameters_distinct_witness:
  "card (parameter_tokens (js ''select $1, $2, $1'')) = 2 \<and>
   length (explain_parameterValues [] (js ''select $1, $2, $1'')) = 2 \<and>
   length (prepare_parameterValues [] (js ''select $1, $2, $1'')) = 2"
proof -
  have "count_parameters (js ''select $1, $2, $1'') = 2"
    by (simp add: count_parameters_def js_def is_digit_def is_digit19_def)
  with count_parameters_distinct [of "js ''select $1, $2, $1''" "[]" "[]"] show ?thesis
    by simp
qed

text \<open>
  The claim as it was stated counts every dollar sign followed by digits: \<open>$0\<close> is
  such a token of \<open>select $0\<close>, and the count is 0.
\<close>

theorem count_parameters_distinct_counterexample:
  "[36, 48] \<in> dollar_digits_tokens (js ''select $0'') \<and> count_parameters (js ''select $0'') = 0"
proof -
  have "js ''select $0'' = js ''select '' @ 36 # [48] @ []"
    by (simp add: js_def)
  then have "[36, 48] \<in> dollar_digits_tokens (js ''select $0'')"
    unfolding dollar_digits_tokens_def by (simp add: is_digit_def) blast
  moreover have "count_parameters (js ''select $0'') = 0"
    by (simp add: count_parameters_def js_def is_digit_def is_digit19_def)
  ultimately show ?thesis
    by simp
qed

section \<open>Properties of the explain check\<close>

text \<open>
  Claim C3. The type annotation replaces every occurrence of the text \<open>$1\<close>, also
  the one at the start of the token \<open>$10\<close>: with the type \<open>int4\<close> for parameter 1,
  the statement for \<open>select $1, $10\<close> reads \<open>select $1::int4, $1::int40;\<close>. A default
  value that is falsy (here the number 0) is not bound: the parameter stays \<open>null\<close>.
  And the list of bound values has one place for each distinct token: with \<open>$2\<close>
  alone it has one place, which is the place of parameter 1, and the default value of
  parameter 2 is not in it.
\<close>

theorem explain_check_prefix_match:
  "explain_actualQuery [(1, js ''int4'')] (js ''select $1, $10'') =
     js ''EXPLAIN'' @ [10] @ js ''select $1::int4, $1::int40;'' \<and>
   explain_parameterValues [(1, JNum 0)] (js ''select $1'') = [JNull] \<and>
   explain_parameterValues [(2, JStr (js ''t''))] (js ''select $2'') = [JNull]"
  by (simp add: js_def trim_def trimEnd_def trimStart_def is_space_def normalizeEnding_def char_at_def
      wrapExpressionInExplainCheck_def includes_js_def indexOf_def Let_def is_digit_def is_digit19_def
      count_parameters_def explain_parameterValues_def explain_actualQuery_def annotate_position_def
      object_keys_def digits_of.simps)

section \<open>Properties of the fragment identity\<close>


























section \<open>Properties of the override resolver\<close>

lemma obj_at_extend: "obj_at (heap @ [new_object]) a = obj_at heap a"
  by (simp add: obj_at_def nth_append less_Suc_eq)

lemma get_property_extend:
  "get_property (heap @ [new_object]) a key = get_property heap a key"
proof (induction a rule: less_induct)
  case (less a)
  show ?case
    by (subst get_property.simps, subst (2) get_property.simps)
       (simp add: obj_at_extend less split: option.splits prototype.splits)
qed

lemma digit_of_nat:
  assumes "k < 10"
  shows "is_digit (48 + of_nat k)"
proof -
  from assms have "k \<in> {0, 1, 2, 3, 4, 5, 6, 7, 8, 9}"
    by auto
  then show ?thesis
    by (auto simp: is_digit_def)
qed

lemma digits_of_digits: "list_all is_digit (digits_of n)"
proof (induction n rule: digits_of.induct)
  case (1 n)
  show ?case
  proof (cases "n < 10")
    case True
    then show ?thesis
      by (subst digits_of.simps) (simp add: digit_of_nat)
  next
    case False
    with 1 have "list_all is_digit (digits_of (n div 10))"
      by simp
    moreover have "is_digit (48 + of_nat (n mod 10))"
      by (rule digit_of_nat) simp
    ultimately show ?thesis
      using False by (subst digits_of.simps) simp
  qed
qed

lemma digits_of_not_Nil: "digits_of n \<noteq> []"
  by (subst digits_of.simps) simp

lemma name_not_digits: "key \<in> set object_prototype_names \<Longrightarrow> \<not> list_all is_digit key"
  by (auto simp: object_prototype_names_def js_def is_digit_def)

lemma proto_not_digits: "\<not> list_all is_digit (js ''__proto__'')"
  by (simp add: js_def is_digit_def)

lemma object_prototype_digits: "object_prototype (digits_of n) = None"
  using name_not_digits [of "digits_of n"] digits_of_digits [of n]
  by (auto simp: object_prototype_def)

lemma digits_of_not_proto: "digits_of n \<noteq> js ''__proto__''"
  using proto_not_digits digits_of_digits [of n] by metis

lemma map_of_filter_other:
  "k \<noteq> k' \<Longrightarrow> map_of (filter (\<lambda>p. fst p \<noteq> k') xs) k = map_of xs k"
  by (induction xs) auto

lemma get_or_empty_old:
  "get_or_empty heap obj key = (heap', v) \<Longrightarrow> take (length heap) heap' = heap \<and> length heap \<le> length heap'"
  by (auto simp: get_or_empty_def split: option.splits hval.splits jsval.splits)

lemma get_or_empty_absent:
  "get_property heap obj key = None \<Longrightarrow>
   get_or_empty heap obj key = (heap @ [new_object], Ref (length heap))"
  by (simp add: get_or_empty_def)

lemma get_or_empty_present:
  "get_property heap obj key = Some (Ref m) \<Longrightarrow> get_or_empty heap obj key = (heap, Ref m)"
  by (simp add: get_or_empty_def)

lemma get_or_empty_native:
  "get_property heap obj key = Some Native \<Longrightarrow> get_or_empty heap obj key = (heap, Native)"
  by (simp add: get_or_empty_def)

lemma getSubstitutionsForDocument_fresh:
  assumes "getSubstitutionsForDocument heap casts key = (heap1, t)"
  shows "t = length heap \<and> t < length heap1 \<and> take (length heap) heap1 = heap"
proof -
  obtain heap2 source where g: "get_or_empty (heap @ [new_object]) casts key = (heap2, source)"
    by (cases "get_or_empty (heap @ [new_object]) casts key")
  from get_or_empty_old [OF g] have 1: "take (Suc (length heap)) heap2 = heap @ [new_object]"
      "Suc (length heap) \<le> length heap2"
    by simp_all
  from 1(1) have "take (length heap) (take (Suc (length heap)) heap2) =
      take (length heap) (heap @ [new_object])"
    by simp
  then have 2: "take (length heap) heap2 = heap"
    by (simp add: min_def)
  from assms g 1(2) 2 show ?thesis
    by (auto simp: getSubstitutionsForDocument_def Let_def)
qed

lemma getSubstitutionsForDocument_absent:
  assumes "get_property heap casts key = None \<or> get_property heap casts key = Some Native"
  shows "\<exists>heap1. getSubstitutionsForDocument heap casts key = (heap1, length heap) \<and>
           obj_at heap1 (length heap) = new_object"
  using assms
proof
  assume "get_property heap casts key = None"
  then show ?thesis
    by (simp add: getSubstitutionsForDocument_def Let_def get_property_extend get_or_empty_absent)
       (simp add: obj_at_def nth_append object_assign_def new_object_def)
next
  assume "get_property heap casts key = Some Native"
  then show ?thesis
    by (simp add: getSubstitutionsForDocument_def Let_def get_property_extend get_or_empty_native)
       (simp add: obj_at_def)
qed

lemma getSubstitutionsForDocument_present:
  assumes "get_property heap casts key = Some (Ref f)"
  shows "\<exists>heap1. getSubstitutionsForDocument heap casts key = (heap1, length heap) \<and>
           obj_at heap1 (length heap) = object_assign (obj_at heap f)"
  using assms
  by (simp add: getSubstitutionsForDocument_def Let_def get_property_extend get_or_empty_present
      obj_at_extend)
     (simp add: obj_at_def)

lemma get_property_copy:
  assumes "obj_at heap1 t = object_assign ob" "map_of (own ob) (js ''__proto__'') = None"
  shows "get_property heap1 t (digits_of n) = map_of (own ob) (digits_of n)"
  using assms
  by (subst get_property.simps)
     (simp add: object_assign_def map_of_filter_other digits_of_not_proto object_prototype_digits
      split: option.splits)

lemma get_property_own:
  "map_of (own (obj_at heap a)) key = Some v \<Longrightarrow> get_property heap a key = Some v"
  by (subst get_property.simps) simp

lemma get_property_new:
  "obj_at heap a = new_object \<Longrightarrow> get_property heap a (digits_of n) = None"
  by (subst get_property.simps) (simp add: new_object_def object_prototype_digits)

text \<open>
  Claim C9, as amended. The lookup is a total function: no step of it can throw. The
  mapping \<open>getSubstitutionsForDocument\<close> returns is a new object: it is none of the
  objects of the heap before the call, these are unchanged, and whatever a caller
  makes of the new object leaves every earlier object as it was. It has the properties
  of the file's entry, except \<open>__proto__\<close>. When the table has no entry for the file
  (the path is no property of it, or names a function that every object inherits), or
  when the file's entry has neither the fragment identity nor \<open>__proto__\<close> as a
  property, the lookup returns a new, empty object. When the file's entry has the
  fragment identity the lookup returns the table's own object for it, not a copy.
\<close>

theorem resolve_copy:
  "(getSubstitutionsForDocument heap casts key = (heap1, t) \<longrightarrow>
      t = length heap \<and> take (length heap) heap1 = heap \<and>
      take (length heap) (heap1[t := ob]) = heap \<and>
      take (length heap) (set_property heap1 t k v) = heap \<and>
      (\<forall>f. get_property heap casts key = Some (Ref f) \<longrightarrow>
           own (obj_at heap1 t) = filter (\<lambda>p. fst p \<noteq> js ''__proto__'') (own (obj_at heap f)))) \<and>
   ((get_property heap casts key = None \<or> get_property heap casts key = Some Native \<or>
     (\<exists>f. get_property heap casts key = Some (Ref f) \<and>
          map_of (own (obj_at heap f)) (js ''__proto__'') = None \<and>
          map_of (own (obj_at heap f)) (digits_of expressionHash) = None)) \<longrightarrow>
      (\<exists>heap' m. resolve heap casts key expressionHash = (heap', Ref m) \<and>
                 length heap \<le> m \<and> obj_at heap' m = new_object \<and> take (length heap) heap' = heap)) \<and>
   (\<forall>f m. get_property heap casts key = Some (Ref f) \<and>
          map_of (own (obj_at heap f)) (digits_of expressionHash) = Some (Ref m) \<longrightarrow>
      (\<exists>heap'. resolve heap casts key expressionHash = (heap', Ref m) \<and>
               take (length heap) heap' = heap))"
proof (intro conjI impI allI)
  assume a: "getSubstitutionsForDocument heap casts key = (heap1, t)"
  from getSubstitutionsForDocument_fresh [OF a] show "t = length heap"
    by simp
  from getSubstitutionsForDocument_fresh [OF a] show "take (length heap) heap1 = heap"
    by simp
  from getSubstitutionsForDocument_fresh [OF a] show "take (length heap) (heap1[t := ob]) = heap"
    by simp
  from getSubstitutionsForDocument_fresh [OF a]
  show "take (length heap) (set_property heap1 t k v) = heap"
    by (simp add: set_property_def)
next
  fix f
  assume a: "getSubstitutionsForDocument heap casts key = (heap1, t)"
    and p: "get_property heap casts key = Some (Ref f)"
  from getSubstitutionsForDocument_present [OF p] a
  show "own (obj_at heap1 t) = filter (\<lambda>p. fst p \<noteq> js ''__proto__'') (own (obj_at heap f))"
    by (auto simp: object_assign_def)
next
  assume "get_property heap casts key = None \<or> get_property heap casts key = Some Native \<or>
     (\<exists>f. get_property heap casts key = Some (Ref f) \<and>
          map_of (own (obj_at heap f)) (js ''__proto__'') = None \<and>
          map_of (own (obj_at heap f)) (digits_of expressionHash) = None)"
  then consider
      (absent) "get_property heap casts key = None \<or> get_property heap casts key = Some Native"
    | (entry) f where "get_property heap casts key = Some (Ref f)"
        "map_of (own (obj_at heap f)) (js ''__proto__'') = None"
        "map_of (own (obj_at heap f)) (digits_of expressionHash) = None"
    by blast
  then obtain heap1 where 1: "getSubstitutionsForDocument heap casts key = (heap1, length heap)"
      "get_property heap1 (length heap) (digits_of expressionHash) = None"
  proof cases
    case absent
    from getSubstitutionsForDocument_absent [OF absent] obtain heap1 where
      "getSubstitutionsForDocument heap casts key = (heap1, length heap)"
      "obj_at heap1 (length heap) = new_object"
      by blast
    with that show ?thesis
      by (simp add: get_property_new)
  next
    case entry
    from getSubstitutionsForDocument_present [OF entry(1)] obtain heap1 where
      "getSubstitutionsForDocument heap casts key = (heap1, length heap)"
      "obj_at heap1 (length heap) = object_assign (obj_at heap f)"
      by blast
    with that entry show ?thesis
      by (simp add: get_property_copy)
  qed
  from getSubstitutionsForDocument_fresh [OF 1(1)]
  have 2: "length heap < length heap1" "take (length heap) heap1 = heap"
    by simp_all
  from 1 have r: "resolve heap casts key expressionHash = (heap1 @ [new_object], Ref (length heap1))"
    by (simp add: resolve_def get_or_empty_absent)
  from 2 have "length heap \<le> length heap1" "obj_at (heap1 @ [new_object]) (length heap1) = new_object"
      "take (length heap) (heap1 @ [new_object]) = heap"
    by (simp_all add: obj_at_def)
  with r show "\<exists>heap' m. resolve heap casts key expressionHash = (heap', Ref m) \<and>
                 length heap \<le> m \<and> obj_at heap' m = new_object \<and> take (length heap) heap' = heap"
    by blast
next
  fix f m
  assume "get_property heap casts key = Some (Ref f) \<and>
          map_of (own (obj_at heap f)) (digits_of expressionHash) = Some (Ref m)"
  then have p: "get_property heap casts key = Some (Ref f)"
    and i: "map_of (own (obj_at heap f)) (digits_of expressionHash) = Some (Ref m)"
    by simp_all
  from getSubstitutionsForDocument_present [OF p] obtain heap1 where
    1: "getSubstitutionsForDocument heap casts key = (heap1, length heap)"
      "obj_at heap1 (length heap) = object_assign (obj_at heap f)"
    by blast
  from 1(2) i have "map_of (own (obj_at heap1 (length heap))) (digits_of expressionHash) = Some (Ref m)"
    by (simp add: object_assign_def map_of_filter_other digits_of_not_proto)
  then have g: "get_property heap1 (length heap) (digits_of expressionHash) = Some (Ref m)"
    by (rule get_property_own)
  from getSubstitutionsForDocument_fresh [OF 1(1)] have 2: "take (length heap) heap1 = heap"
    by simp
  from 1(1) g have "resolve heap casts key expressionHash = (heap1, Ref m)"
    by (simp add: resolve_def get_or_empty_present)
  with 2 show "\<exists>heap'. resolve heap casts key expressionHash = (heap', Ref m) \<and>
               take (length heap) heap' = heap"
    by blast
qed

theorem resolve_copy_witness:
  "snd (getSubstitutionsForDocument
          [data_object [(js ''Q.hs'', Ref 1)], data_object [(js ''42'', Ref 2)],
           data_object [(js ''1'', Prim (JStr (js ''int4'')))]] 0 (js ''Q.hs'')) = 3 \<and>
   own (obj_at (fst (getSubstitutionsForDocument
          [data_object [(js ''Q.hs'', Ref 1)], data_object [(js ''42'', Ref 2)],
           data_object [(js ''1'', Prim (JStr (js ''int4'')))]] 0 (js ''Q.hs''))) 3) =
     [(js ''42'', Ref 2)] \<and>
   take 3 (set_property (fst (getSubstitutionsForDocument
          [data_object [(js ''Q.hs'', Ref 1)], data_object [(js ''42'', Ref 2)],
           data_object [(js ''1'', Prim (JStr (js ''int4'')))]] 0 (js ''Q.hs''))) 3
          (js ''42'') (Prim JNull)) =
     [data_object [(js ''Q.hs'', Ref 1)], data_object [(js ''42'', Ref 2)],
      data_object [(js ''1'', Prim (JStr (js ''int4'')))]] \<and>
   (\<exists>heap'. resolve [data_object [(js ''Q.hs'', Ref 1)], data_object [(js ''42'', Ref 2)],
                     data_object [(js ''1'', Prim (JStr (js ''int4'')))]]
          0 (js ''Q.hs'') 42 = (heap', Ref 2)) \<and>
   (\<exists>heap' m. resolve [data_object [(js ''Q.hs'', Ref 1)], data_object [(js ''42'', Ref 2)],
                       data_object [(js ''1'', Prim (JStr (js ''int4'')))]]
          0 (js ''R.hs'') 42 = (heap', Ref m) \<and> 3 \<le> m \<and> obj_at heap' m = new_object) \<and>
   (\<exists>heap' m. resolve [data_object [(js ''Q.hs'', Ref 1)], data_object [(js ''42'', Ref 2)],
                       data_object [(js ''1'', Prim (JStr (js ''int4'')))]]
          0 (js ''toString'') 42 = (heap', Ref m) \<and> 3 \<le> m \<and> obj_at heap' m = new_object) \<and>
   (\<exists>heap' m. resolve [data_object [(js ''Q.hs'', Ref 1)], data_object [(js ''42'', Ref 2)],
                       data_object [(js ''1'', Prim (JStr (js ''int4'')))]]
          0 (js ''Q.hs'') 43 = (heap', Ref m) \<and> 3 \<le> m \<and> obj_at heap' m = new_object)"
proof -
  let ?H = "[data_object [(js ''Q.hs'', Ref 1)], data_object [(js ''42'', Ref 2)],
             data_object [(js ''1'', Prim (JStr (js ''int4'')))]]"
  let ?G = "getSubstitutionsForDocument ?H 0 (js ''Q.hs'')"
  have 1: "get_property ?H 0 (js ''Q.hs'') = Some (Ref 1)"
    "get_property ?H 0 (js ''R.hs'') = None"
    "get_property ?H 0 (js ''toString'') = Some Native"
    by (simp_all add: get_property.simps obj_at_def data_object_def js_def object_prototype_def
        object_prototype_names_def)
  have 2: "map_of (own (obj_at ?H 1)) (digits_of 42) = Some (Ref 2)"
    "map_of (own (obj_at ?H 1)) (digits_of 43) = None"
    "map_of (own (obj_at ?H 1)) (js ''__proto__'') = None"
    by (simp_all add: obj_at_def data_object_def js_def digits_of.simps)
  have 3: "filter (\<lambda>p. fst p \<noteq> js ''__proto__'') (own (obj_at ?H 1)) = [(js ''42'', Ref 2)]"
    by (simp add: obj_at_def data_object_def js_def)
  have 4: "?G = (fst ?G, snd ?G)"
    by simp
  have 5: "length ?H = 3"
    by simp
  note t = resolve_copy [of ?H 0 "js ''Q.hs''" "fst ?G" "snd ?G" new_object "js ''42''"
      "Prim JNull" 42]
  from t 4 have "snd ?G = length ?H"
    by blast
  then have a: "snd ?G = 3"
    by (simp only: 5)
  from t 4 have "take (length ?H) (set_property (fst ?G) (snd ?G) (js ''42'') (Prim JNull)) = ?H"
    by blast
  then have b: "take 3 (set_property (fst ?G) 3 (js ''42'') (Prim JNull)) = ?H"
    by (simp only: 5 a)
  from t 4 1(1) have "own (obj_at (fst ?G) (snd ?G)) =
      filter (\<lambda>p. fst p \<noteq> js ''__proto__'') (own (obj_at ?H 1))"
    by blast
  then have c: "own (obj_at (fst ?G) 3) = [(js ''42'', Ref 2)]"
    by (simp only: a 3)
  have d: "(\<exists>heap'. resolve ?H 0 (js ''Q.hs'') 42 = (heap', Ref 2)) \<and>
      (\<exists>heap' m. resolve ?H 0 (js ''R.hs'') 42 = (heap', Ref m) \<and> 3 \<le> m \<and>
         obj_at heap' m = new_object) \<and>
      (\<exists>heap' m. resolve ?H 0 (js ''toString'') 42 = (heap', Ref m) \<and> 3 \<le> m \<and>
         obj_at heap' m = new_object) \<and>
      (\<exists>heap' m. resolve ?H 0 (js ''Q.hs'') 43 = (heap', Ref m) \<and> 3 \<le> m \<and>
         obj_at heap' m = new_object)"
    using resolve_copy [of ?H 0 "js ''Q.hs''" "[]" 0 new_object "[]" "Prim JNull" 42]
      resolve_copy [of ?H 0 "js ''R.hs''" "[]" 0 new_object "[]" "Prim JNull" 42]
      resolve_copy [of ?H 0 "js ''toString''" "[]" 0 new_object "[]" "Prim JNull" 42]
      resolve_copy [of ?H 0 "js ''Q.hs''" "[]" 0 new_object "[]" "Prim JNull" 43] 1 2
    by auto
  from a b c d show ?thesis
    by blast
qed

text \<open>
  The claim as it was stated fails when the file and the identity are present: the
  lookup returns object 2 of the table, and a write to it by the caller changes the
  table's entry, from the type \<open>int4\<close> to \<open>text\<close>.
\<close>

theorem resolve_copy_counterexample:
  "snd (resolve [data_object [(js ''Q.hs'', Ref 1)], data_object [(js ''42'', Ref 2)],
                 data_object [(js ''1'', Prim (JStr (js ''int4'')))]]
          0 (js ''Q.hs'') 42) = Ref 2 \<and>
   obj_at (set_property
             (fst (resolve [data_object [(js ''Q.hs'', Ref 1)], data_object [(js ''42'', Ref 2)],
                            data_object [(js ''1'', Prim (JStr (js ''int4'')))]] 0 (js ''Q.hs'') 42))
             2 (js ''1'') (Prim (JStr (js ''text'')))) 2 =
     data_object [(js ''1'', Prim (JStr (js ''text'')))]"
  by (simp add: resolve_def getSubstitutionsForDocument_def get_or_empty_def obj_at_def
      js_def digits_of.simps set_property_def Let_def get_property.simps data_object_def
      new_object_def object_assign_def object_prototype_def object_prototype_names_def)

text \<open>
  An entry with a property \<open>__proto__\<close> hands its value to the copy as prototype: the
  entry of the file holds no fragment identity, and the lookup of the identity 42
  still finds object 3 of the table, through the prototype of the copy.
\<close>

lemma resolve_inherited:
  "map_of (own (obj_at [data_object [(js ''Q.hs'', Ref 1)], data_object [(js ''__proto__'', Ref 2)],
                        data_object [(js ''42'', Ref 3)],
                        data_object [(js ''1'', Prim (JStr (js ''int4'')))]] 1)) (digits_of 42) = None \<and>
   snd (resolve [data_object [(js ''Q.hs'', Ref 1)], data_object [(js ''__proto__'', Ref 2)],
                 data_object [(js ''42'', Ref 3)],
                 data_object [(js ''1'', Prim (JStr (js ''int4'')))]]
          0 (js ''Q.hs'') 42) = Ref 3"
  by (simp add: resolve_def getSubstitutionsForDocument_def get_or_empty_def obj_at_def
      js_def digits_of.simps Let_def get_property.simps data_object_def
      new_object_def object_assign_def object_prototype_def object_prototype_names_def)

section \<open>Properties of the fragment extractor\<close>

lemma indexOf_at_range: "indexOf_at s p i = - 1 \<or> i \<le> indexOf_at s p i"
proof (induction s arbitrary: i)
  case Nil
  show ?case by simp
next
  case (Cons c cs)
  from Cons [of "i + 1"] show ?case by auto
qed

lemma indexOf_nonneg: "indexOf s p \<noteq> - 1 \<Longrightarrow> 0 \<le> indexOf s p"
  using indexOf_at_range [of s p 0] by (simp add: indexOf_def)

lemma END_nonempty: "HASKELL_HASQL_END \<noteq> []" "length HASKELL_HASQL = 6"
  by (simp_all add: HASKELL_HASQL_END_def HASKELL_HASQL_def js_def)

lemma scan_lines_append:
  "scan_lines (xs @ ys) n s =
     (case scan_lines xs n s of None \<Rightarrow> None | Some s' \<Rightarrow> scan_lines ys (n + int (length xs)) s')"
proof (induction xs arbitrary: n s)
  case Nil
  show ?case by simp
next
  case (Cons x xs)
  show ?case
    by (simp add: Cons add.assoc split: option.split)
qed

lemma scan_line_plain:
  "outside s \<Longrightarrow> indexOf l HASKELL_HASQL = - 1 \<Longrightarrow> scan_line l n s = Some s"
  by (auto simp: outside_def scan_line_def)

lemma scan_line_single:
  assumes "outside s" "0 \<le> n"
    and "indexOf l HASKELL_HASQL \<noteq> - 1" "indexOf l HASKELL_HASQL_END \<noteq> - 1"
    and "indexOf l HASKELL_HASQL + 6 \<le> indexOf l HASKELL_HASQL_END"
  shows "\<exists>s'. scan_line l n s = Some s' \<and> outside s' \<and> sqlStringBound s' = Some [] \<and>
     result s' = result s @
       [\<lparr>start_line = nat n, start_character = nat (indexOf l HASKELL_HASQL + 6),
         end_line = nat n, end_character = nat (indexOf l HASKELL_HASQL_END)\<rparr>]"
  using assms indexOf_nonneg [of l HASKELL_HASQL]
  by (auto simp: outside_def scan_line_def END_nonempty vscode_Range_def Let_def)

lemma scan_line_open:
  assumes "outside s" "0 \<le> n"
    and "indexOf l HASKELL_HASQL \<noteq> - 1" "indexOf l HASKELL_HASQL_END = - 1"
  shows "\<exists>s'. scan_line l n s = Some s' \<and> inside (nat n) (nat (indexOf l HASKELL_HASQL + 6)) s' \<and>
     result s' = result s"
  using assms indexOf_nonneg [of l HASKELL_HASQL]
  by (auto simp: outside_def inside_def scan_line_def END_nonempty vscode_Range_def Let_def)

lemma scan_line_inside:
  assumes "inside k c s" "indexOf l HASKELL_HASQL_END = - 1"
  shows "scan_line l n s = Some s"
  using assms by (auto simp: inside_def scan_line_def END_nonempty Let_def)

lemma scan_lines_inside:
  assumes "inside k c s" "list_all (\<lambda>m. indexOf m HASKELL_HASQL_END = - 1) ms"
  shows "scan_lines ms n s = Some s"
  using assms by (induction ms arbitrary: n) (simp_all add: scan_line_inside)

lemma scan_line_close:
  assumes "inside k c s" "int k < n" "indexOf l HASKELL_HASQL_END \<noteq> - 1"
  shows "\<exists>s'. scan_line l n s = Some s' \<and> outside s' \<and> sqlStringBound s' = Some [] \<and>
     result s' = result s @
       [\<lparr>start_line = k, start_character = c,
         end_line = nat n, end_character = nat (indexOf l HASKELL_HASQL_END)\<rparr>]"
  using assms indexOf_nonneg [of l HASKELL_HASQL_END]
  by (auto simp: outside_def inside_def scan_line_def END_nonempty vscode_Range_def Let_def)

lemma scan_block:
  assumes "outside s" "block_ok b"
  shows "\<exists>s'. scan_lines (block_lines b) (int n) s = Some s' \<and> outside s' \<and>
     result s' = result s @ block_spans n b \<and>
     sqlStringBound s' = (if is_region b then Some [] else sqlStringBound s)"
proof (cases b)
  case (Plain l)
  with assms show ?thesis by (simp add: scan_line_plain)
next
  case (Single l)
  with assms scan_line_single [of s "int n" l] show ?thesis by auto
next
  case (Multi a ms z)
  with assms scan_line_open [of s "int n" a]
  obtain s1 where 1: "scan_line a (int n) s = Some s1"
      "inside n (nat (indexOf a HASKELL_HASQL + 6)) s1" "result s1 = result s"
    by auto
  from Multi assms have 2: "scan_lines ms (int n + 1) s1 = Some s1"
    using scan_lines_inside [OF 1(2)] by simp
  from Multi assms scan_line_close [OF 1(2), of "int n + 1 + int (length ms)" z]
  obtain s2 where 3: "scan_line z (int n + 1 + int (length ms)) s1 = Some s2"
      "outside s2" "sqlStringBound s2 = Some []"
      "result s2 = result s1 @ [\<lparr>start_line = n, start_character = nat (indexOf a HASKELL_HASQL + 6),
         end_line = nat (int n + 1 + int (length ms)),
         end_character = nat (indexOf z HASKELL_HASQL_END)\<rparr>]"
    by auto
  have e: "nat (int n + 1 + int (length ms)) = n + length ms + 1"
    by simp
  from 1 2 3 Multi show ?thesis
    by (simp add: scan_lines_append e)
qed

lemma scan_layout:
  assumes "outside s" "list_all block_ok bs"
  shows "\<exists>s'. scan_lines (layout bs) (int n) s = Some s' \<and> outside s' \<and>
     result s' = result s @ layout_spans n bs \<and>
     sqlStringBound s' = (if list_ex is_region bs then Some [] else sqlStringBound s)"
  using assms
proof (induction bs arbitrary: s n)
  case Nil
  then show ?case by (simp add: layout_def)
next
  case (Cons b bs)
  from Cons.prems scan_block [of s b n]
  obtain s1 where 1: "scan_lines (block_lines b) (int n) s = Some s1" "outside s1"
      "result s1 = result s @ block_spans n b"
      "sqlStringBound s1 = (if is_region b then Some [] else sqlStringBound s)"
    by auto
  from Cons.prems Cons.IH [OF 1(2), of "n + length (block_lines b)"]
  obtain s2 where 2: "scan_lines (layout bs) (int (n + length (block_lines b))) s1 = Some s2"
      "outside s2" "result s2 = result s1 @ layout_spans (n + length (block_lines b)) bs"
      "sqlStringBound s2 = (if list_ex is_region bs then Some [] else sqlStringBound s1)"
    by auto
  have l: "layout (b # bs) = block_lines b @ layout bs"
    by (simp add: layout_def)
  from 1 2 show ?case
    by (simp add: l scan_lines_append)
qed

lemma layout_Cons: "layout (b # bs) = block_lines b @ layout bs"
  by (simp add: layout_def)

lemma layout_spans_lines:
  "list_all block_ok bs \<Longrightarrow> r \<in> set (layout_spans n bs) \<Longrightarrow>
     n \<le> start_line r \<and> end_line r < n + length (layout bs) \<and> span_ok r"
proof (induction bs arbitrary: n)
  case Nil
  then show ?case by simp
next
  case (Cons b bs)
  from Cons.prems(2) consider "r \<in> set (block_spans n b)"
    | "r \<in> set (layout_spans (n + length (block_lines b)) bs)"
    by auto
  then show ?case
  proof cases
    case 1
    with Cons.prems(1) indexOf_nonneg [of _ HASKELL_HASQL] show ?thesis
      by (cases b) (auto simp: layout_Cons span_ok_def)
  next
    case 2
    with Cons.prems(1) Cons.IH [of "n + length (block_lines b)"] show ?thesis
      by (auto simp: layout_Cons)
  qed
qed

lemma block_spans_lines:
  "r \<in> set (block_spans n b) \<Longrightarrow> end_line r < n + length (block_lines b)"
  by (cases b) auto

lemma layout_spans_sorted:
  "list_all block_ok bs \<Longrightarrow> sorted_wrt span_before (layout_spans n bs)"
proof (induction bs arbitrary: n)
  case Nil
  show ?case by simp
next
  case (Cons b bs)
  have 1: "sorted_wrt span_before (block_spans n b)"
    by (cases b) simp_all
  have 2: "sorted_wrt span_before (layout_spans (n + length (block_lines b)) bs)"
    using Cons by simp
  have 3: "span_before r r'" if "r \<in> set (block_spans n b)"
      "r' \<in> set (layout_spans (n + length (block_lines b)) bs)" for r r'
    using block_spans_lines [OF that(1)] layout_spans_lines [OF _ that(2)] Cons.prems
    by (simp add: span_before_def)
  from 1 2 3 show ?case
    by (simp add: sorted_wrt_append)
qed

lemma layout_spans_length: "length (layout_spans n bs) = length (filter is_region bs)"
proof (induction bs arbitrary: n)
  case Nil
  show ?case by simp
next
  case (Cons b bs)
  then show ?case by (cases b) simp_all
qed

lemma outside_init: "outside scan_init" "result scan_init = []" "sqlStringBound scan_init = None"
  by (simp_all add: outside_def scan_init_def)

lemma getHasqlContent_layout:
  assumes "list_all block_ok bs"
  shows "getHasqlContent (doc\<lparr>doc_lines := layout bs\<rparr>) = Some (layout_spans 0 bs, list_ex is_region bs)"
proof -
  from scan_layout [OF outside_init(1) assms, of 0]
  obtain s' where "scan_lines (layout bs) 0 scan_init = Some s'"
      "result s' = layout_spans 0 bs"
      "sqlStringBound s' = (if list_ex is_region bs then Some [] else None)"
    by (auto simp: outside_init)
  then show ?thesis
    by (simp add: getHasqlContent_def)
qed

lemma getHasqlContent_unterminated:
  assumes "list_all block_ok bs"
    and "indexOf a HASKELL_HASQL \<noteq> - 1" "indexOf a HASKELL_HASQL_END = - 1"
    and "list_all (\<lambda>m. indexOf m HASKELL_HASQL_END = - 1) ms"
  shows "getHasqlContent (doc\<lparr>doc_lines := layout bs @ a # ms\<rparr>) = Some (layout_spans 0 bs, False)"
proof -
  from scan_layout [OF outside_init(1) assms(1), of 0]
  obtain s1 where 1: "scan_lines (layout bs) 0 scan_init = Some s1" "outside s1"
      "result s1 = layout_spans 0 bs"
    by (auto simp: outside_init)
  from scan_line_open [OF 1(2) _ assms(2,3), of "int (length (layout bs))"]
  obtain s2 where 2: "scan_line a (int (length (layout bs))) s1 = Some s2"
      "inside (length (layout bs)) (nat (indexOf a HASKELL_HASQL + 6)) s2" "result s2 = result s1"
    by auto
  have 3: "scan_lines ms (int (length (layout bs)) + 1) s2 = Some s2"
    by (rule scan_lines_inside [OF 2(2) assms(4)])
  from 2(2) have 4: "sqlStringBound s2 \<noteq> Some []"
    by (simp add: inside_def END_nonempty)
  from 1 2 3 4 show ?thesis
    by (simp add: getHasqlContent_def scan_lines_append)
qed

lemma scan_lines_no_start:
  "outside s \<Longrightarrow> list_all (\<lambda>l. indexOf l HASKELL_HASQL = - 1) ls \<Longrightarrow> scan_lines ls n s = Some s"
  by (induction ls arbitrary: n) (simp_all add: scan_line_plain)

lemma getHasqlContent_no_start:
  "list_all (\<lambda>l. indexOf l HASKELL_HASQL = - 1) (doc_lines document) \<Longrightarrow>
   getHasqlContent document = Some ([], False)"
  by (simp add: getHasqlContent_def scan_lines_no_start outside_init)

lemma vscode_Range_Some:
  "0 \<le> a \<Longrightarrow> 0 \<le> b \<Longrightarrow> 0 \<le> c \<Longrightarrow> 0 \<le> d \<Longrightarrow> \<exists>r. vscode_Range a b c d = Some r"
  by (simp add: vscode_Range_def)

lemma close_total:
  assumes "0 \<le> n" "scan_inv s"
  shows "\<exists>s'. (case sqlStringBound s of
            None \<Rightarrow> Some s
          | Some bound \<Rightarrow>
              if bound \<noteq> []
              then (if indexOf l bound \<noteq> - 1
                    then (case vscode_Range (sqlStartLineIndex s) (startRangePosition s) n
                                 (indexOf l bound) of
                            None \<Rightarrow> None
                          | Some r \<Rightarrow>
                              Some (s\<lparr>result := result s @ [r],
                                        sqlStartLineIndex := - 1,
                                        sqlStringBound := Some []\<rparr>))
                    else Some s)
              else Some s) = Some s' \<and> scan_inv s'"
proof (cases "sqlStringBound s")
  case None
  with assms show ?thesis by simp
next
  case (Some bound)
  show ?thesis
  proof (cases "bound \<noteq> [] \<and> indexOf l bound \<noteq> - 1")
    case True
    with assms Some have "0 \<le> sqlStartLineIndex s" "0 \<le> startRangePosition s" "0 \<le> indexOf l bound"
      by (simp_all add: scan_inv_def indexOf_nonneg)
    from vscode_Range_Some [OF this(1,2) assms(1) this(3)] obtain r where
      "vscode_Range (sqlStartLineIndex s) (startRangePosition s) n (indexOf l bound) = Some r"
      by blast
    with True Some show ?thesis
      by (simp add: scan_inv_def)
  next
    case False
    with assms Some show ?thesis
      by auto
  qed
qed

lemma scan_line_total:
  assumes "0 \<le> n" "scan_inv s"
  shows "\<exists>s'. scan_line l n s = Some s' \<and> scan_inv s'"
proof (cases "sqlStartLineIndex s = - 1 \<and> indexOf l HASKELL_HASQL \<noteq> - 1")
  case True
  let ?s1 = "s\<lparr>startRangePosition := indexOf l HASKELL_HASQL + int (length HASKELL_HASQL),
                 sqlStringBound := Some HASKELL_HASQL_END, sqlStartLineIndex := n\<rparr>"
  from True have e: "(if sqlStartLineIndex s = - 1
         then (if indexOf l HASKELL_HASQL \<noteq> - 1 then ?s1 else s)
         else s) = ?s1"
    by simp
  from True assms(1) indexOf_nonneg [of l HASKELL_HASQL] have "scan_inv ?s1"
    by (simp add: scan_inv_def)
  from close_total [OF assms(1) this, of l] show ?thesis
    by (simp only: scan_line_def Let_def e)
next
  case False
  let ?s1 = "s\<lparr>startRangePosition := indexOf l HASKELL_HASQL + int (length HASKELL_HASQL),
                 sqlStringBound := Some HASKELL_HASQL_END, sqlStartLineIndex := n\<rparr>"
  from False have e: "(if sqlStartLineIndex s = - 1
         then (if indexOf l HASKELL_HASQL \<noteq> - 1 then ?s1 else s)
         else s) = s"
    by auto
  from close_total [OF assms, of l] show ?thesis
    by (simp only: scan_line_def Let_def e)
qed

lemma scan_lines_total:
  "0 \<le> n \<Longrightarrow> scan_inv s \<Longrightarrow> \<exists>s'. scan_lines ls n s = Some s'"
proof (induction ls arbitrary: n s)
  case Nil
  show ?case by simp
next
  case (Cons l ls)
  from scan_line_total [OF Cons.prems, of l] obtain s1 where
    1: "scan_line l n s = Some s1" "scan_inv s1"
    by blast
  from Cons.prems(1) have "0 \<le> n + 1" by simp
  from Cons.IH [OF this 1(2)] 1(1) show ?case
    by simp
qed

lemma getHasqlContent_total: "\<exists>r. getHasqlContent doc = Some r"
proof -
  have "scan_inv scan_init"
    by (simp add: scan_inv_def scan_init_def)
  from scan_lines_total [OF _ this, of 0 "doc_lines doc"] show ?thesis
    by (auto simp: getHasqlContent_def)
qed

lemma indexOf_at_first:
  "indexOf_at s pat i = (case first_index s pat of None \<Rightarrow> - 1 | Some k \<Rightarrow> i + int k)"
  by (induction s arbitrary: i) (auto split: option.splits)

lemma indexOf_first:
  "indexOf s pat = (case first_index s pat of None \<Rightarrow> - 1 | Some k \<Rightarrow> int k)"
  by (simp add: indexOf_def indexOf_at_first split: option.split)

lemma indexOf_none: "(indexOf s pat = - 1) = (first_index s pat = None)"
  by (simp add: indexOf_first split: option.split)

lemma indexOf_some: "indexOf s pat \<noteq> - 1 \<Longrightarrow> first_index s pat = Some (nat (indexOf s pat))"
  by (simp add: indexOf_first split: option.splits)

lemma delimiters:
  "HASKELL_HASQL \<noteq> []" "10 \<notin> set HASKELL_HASQL" "length HASKELL_HASQL = 6"
  "HASKELL_HASQL_END \<noteq> []" "10 \<notin> set HASKELL_HASQL_END" "length HASKELL_HASQL_END = 2"
  by (simp_all add: HASKELL_HASQL_def HASKELL_HASQL_END_def js_def)

lemma prefix_line:
  assumes "nl_tail t" "10 \<notin> set pat"
  shows "prefix pat (l @ t) = prefix pat l"
proof
  assume "prefix pat (l @ t)"
  then consider "prefix pat l" | us where "pat = l @ us" "prefix us t"
    by (auto simp: prefix_append)
  then show "prefix pat l"
  proof cases
    case 1
    then show ?thesis .
  next
    case 2
    show ?thesis
    proof (cases us)
      case Nil
      with 2 show ?thesis by simp
    next
      case (Cons u us')
      with 2(2) assms(1) have "u = 10"
        by (cases t) (auto simp: nl_tail_def)
      with 2(1) Cons assms(2) show ?thesis by simp
    qed
  qed
next
  assume "prefix pat l"
  then show "prefix pat (l @ t)"
    by (rule prefix_prefix)
qed

lemma count_False_Cons:
  "count_regions False (c # cs) =
     (if prefix HASKELL_HASQL (c # cs) then count_regions True (drop 6 (c # cs))
      else count_regions False cs)"
  by (simp add: delimiters)

lemma drop_Suc_plus: "drop (Suc k + n) (c # l) = drop (k + n) l"
  by simp

lemma count_True_Cons:
  "count_regions True (c # cs) =
     (if prefix HASKELL_HASQL_END (c # cs) then Suc (count_regions False (drop 2 (c # cs)))
      else count_regions True cs)"
  by (simp add: delimiters)

declare count_regions.simps(2,3) [simp del]

lemma count_False_skip:
  assumes "first_index l HASKELL_HASQL = None" "nl_tail t"
  shows "count_regions False (l @ t) = count_regions False t"
  using assms(1)
proof (induction l)
  case Nil
  show ?case by simp
next
  case (Cons c l)
  then have n: "\<not> prefix HASKELL_HASQL (c # l)" and r: "first_index l HASKELL_HASQL = None"
    by (auto split: if_splits)
  from n prefix_line [OF assms(2) delimiters(2), of "c # l"]
  have "\<not> prefix HASKELL_HASQL ((c # l) @ t)"
    by blast 
  then have "count_regions False ((c # l) @ t) = count_regions False (l @ t)"
    using count_False_Cons [of c "l @ t"] by simp
  with Cons.IH [OF r] show ?case by simp
qed

lemma count_True_skip:
  assumes "first_index l HASKELL_HASQL_END = None" "nl_tail t"
  shows "count_regions True (l @ t) = count_regions True t"
  using assms(1)
proof (induction l)
  case Nil
  show ?case by simp
next
  case (Cons c l)
  then have n: "\<not> prefix HASKELL_HASQL_END (c # l)" and r: "first_index l HASKELL_HASQL_END = None"
    by (auto split: if_splits)
  from n prefix_line [OF assms(2) delimiters(5), of "c # l"]
  have "\<not> prefix HASKELL_HASQL_END ((c # l) @ t)"
    by blast
  then have "count_regions True ((c # l) @ t) = count_regions True (l @ t)"
    using count_True_Cons [of c "l @ t"] by simp
  with Cons.IH [OF r] show ?case by simp
qed

lemma count_False_open:
  assumes "first_index l HASKELL_HASQL = Some k" "nl_tail t"
  shows "count_regions False (l @ t) = count_regions True (drop (k + 6) l @ t)"
  using assms(1)
proof (induction l arbitrary: k)
  case Nil
  then show ?case by (simp add: delimiters)
next
  case (Cons c l)
  show ?case
  proof (cases "prefix HASKELL_HASQL (c # l)")
    case True
    with Cons.prems have k: "k = 0" by simp
    from True have len: "6 \<le> length (c # l)"
      using prefix_length_le [OF True] by (simp add: delimiters)
    from True have "prefix HASKELL_HASQL ((c # l) @ t)"
      by (rule prefix_prefix)
    then have "count_regions False ((c # l) @ t) = count_regions True (drop 6 ((c # l) @ t))"
      using count_False_Cons [of c "l @ t"] by simp
    with len k show ?thesis by simp
  next
    case False
    with Cons.prems obtain k' where k: "first_index l HASKELL_HASQL = Some k'" "k = Suc k'"
      by auto
    from False prefix_line [OF assms(2) delimiters(2), of "c # l"]
    have "\<not> prefix HASKELL_HASQL ((c # l) @ t)"
      by blast
    then have "count_regions False ((c # l) @ t) = count_regions False (l @ t)"
      using count_False_Cons [of c "l @ t"] by simp
    with Cons.IH [OF k(1)] k(2) show ?thesis
      by (simp only: drop_Suc_plus append_Cons)
  qed
qed

lemma count_True_close:
  assumes "first_index l HASKELL_HASQL_END = Some k" "nl_tail t"
  shows "count_regions True (l @ t) = Suc (count_regions False (drop (k + 2) l @ t))"
  using assms(1)
proof (induction l arbitrary: k)
  case Nil
  then show ?case by (simp add: delimiters)
next
  case (Cons c l)
  show ?case
  proof (cases "prefix HASKELL_HASQL_END (c # l)")
    case True
    with Cons.prems have k: "k = 0" by simp
    from True have len: "2 \<le> length (c # l)"
      using prefix_length_le [OF True] by (simp add: delimiters)
    from True have "prefix HASKELL_HASQL_END ((c # l) @ t)"
      by (rule prefix_prefix)
    then have "count_regions True ((c # l) @ t) = Suc (count_regions False (drop 2 ((c # l) @ t)))"
      using count_True_Cons [of c "l @ t"] by simp
    with len k show ?thesis by simp
  next
    case False
    with Cons.prems obtain k' where k: "first_index l HASKELL_HASQL_END = Some k'" "k = Suc k'"
      by auto
    from False prefix_line [OF assms(2) delimiters(5), of "c # l"]
    have "\<not> prefix HASKELL_HASQL_END ((c # l) @ t)"
      by blast
    then have "count_regions True ((c # l) @ t) = count_regions True (l @ t)"
      using count_True_Cons [of c "l @ t"] by simp
    with Cons.IH [OF k(1)] k(2) show ?thesis
      by (simp only: drop_Suc_plus append_Cons)
  qed
qed

lemma first_index_drop_Some:
  "pat \<noteq> [] \<Longrightarrow> first_index l pat = Some e \<Longrightarrow> k \<le> e \<Longrightarrow> first_index (drop k l) pat = Some (e - k)"
proof (induction l arbitrary: k e)
  case Nil
  then show ?case by simp
next
  case (Cons c l)
  show ?case
  proof (cases k)
    case 0
    with Cons.prems show ?thesis by simp
  next
    case (Suc k')
    with Cons.prems have "\<not> prefix pat (c # l)"
      by (auto split: if_splits)
    with Cons.prems obtain e' where e: "first_index l pat = Some e'" "e = Suc e'"
      by auto
    with Cons.IH [OF Cons.prems(1) e(1), of k'] Suc Cons.prems(3) show ?thesis
      by simp
  qed
qed

lemma first_index_drop_None:
  "pat \<noteq> [] \<Longrightarrow> first_index l pat = None \<Longrightarrow> first_index (drop k l) pat = None"
proof (induction l arbitrary: k)
  case Nil
  then show ?case by simp
next
  case (Cons c l)
  show ?case
  proof (cases k)
    case 0
    with Cons.prems show ?thesis by simp
  next
    case (Suc k')
    from Cons.prems have "first_index l pat = None"
      by (auto split: if_splits)
    with Cons.IH [OF Cons.prems(1) this, of k'] Suc show ?thesis
      by simp
  qed
qed

lemma nl_tail_nltext: "nl_tail (nltext ls)"
  by (cases ls) (simp_all add: nltext_def nl_tail_def)

lemma nltext_Cons: "nltext (l # ls) = 10 # l @ nltext ls"
  by (simp add: nltext_def)

lemma nltext_append: "nltext (xs @ ys) = nltext xs @ nltext ys"
  by (simp add: nltext_def)

lemma count_False_nl: "count_regions False (10 # cs) = count_regions False cs"
proof -
  have "\<not> prefix HASKELL_HASQL (10 # cs)"
    by (simp add: HASKELL_HASQL_def js_def)
  then show ?thesis
    by (simp only: count_False_Cons if_False)
qed

lemma count_True_nl: "count_regions True (10 # cs) = count_regions True cs"
proof -
  have "\<not> prefix HASKELL_HASQL_END (10 # cs)"
    by (simp add: HASKELL_HASQL_END_def js_def)
  then show ?thesis
    by (simp only: count_True_Cons if_False)
qed

lemma count_True_lines:
  "list_all (\<lambda>m. indexOf m HASKELL_HASQL_END = - 1) ms \<Longrightarrow>
   count_regions True (nltext (ms @ rest)) = count_regions True (nltext rest)"
proof (induction ms)
  case Nil
  show ?case by simp
next
  case (Cons m ms)
  then have "first_index m HASKELL_HASQL_END = None"
    by (simp add: indexOf_none)
  from count_True_skip [OF this nl_tail_nltext, of "ms @ rest"] Cons show ?case
    by (simp add: nltext_Cons count_True_nl)
qed

lemma count_region_line:
  assumes s: "first_index l HASKELL_HASQL = Some s"
    and e: "first_index l HASKELL_HASQL_END = Some e" "s + 6 \<le> e"
    and r: "first_index (drop (e + 2) l) HASKELL_HASQL = None"
    and t: "nl_tail t"
  shows "count_regions False (l @ t) = Suc (count_regions False t)"
proof -
  have "count_regions False (l @ t) = count_regions True (drop (s + 6) l @ t)"
    by (rule count_False_open [OF s t])
  also from first_index_drop_Some [OF delimiters(4) e]
  have "\<dots> = Suc (count_regions False (drop (e - (s + 6) + 2) (drop (s + 6) l) @ t))"
    by (rule count_True_close [OF _ t])
  also from e(2) have "drop (e - (s + 6) + 2) (drop (s + 6) l) = drop (e + 2) l"
    by simp
  also have "count_regions False (drop (e + 2) l @ t) = count_regions False t"
    by (rule count_False_skip [OF r t])
  finally show ?thesis .
qed

lemma count_block:
  assumes "block_ok b"
  shows "count_regions False (nltext (block_lines b @ rest)) =
         (if is_region b then 1 else 0) + count_regions False (nltext rest)"
proof (cases b)
  case (Plain l)
  with assms have "first_index l HASKELL_HASQL = None"
    by (simp add: indexOf_none)
  from count_False_skip [OF this nl_tail_nltext, of rest] Plain show ?thesis
    by (simp add: nltext_Cons count_False_nl)
next
  case (Single l)
  with assms have b: "indexOf l HASKELL_HASQL \<noteq> - 1" "indexOf l HASKELL_HASQL_END \<noteq> - 1"
      "indexOf l HASKELL_HASQL + 6 \<le> indexOf l HASKELL_HASQL_END"
      "indexOf (drop (nat (indexOf l HASKELL_HASQL_END) + 2) l) HASKELL_HASQL = - 1"
    by simp_all
  from b(1) have p: "0 \<le> indexOf l HASKELL_HASQL"
    by (simp add: indexOf_first split: option.splits)
  have 1: "first_index l HASKELL_HASQL = Some (nat (indexOf l HASKELL_HASQL))"
      "first_index l HASKELL_HASQL_END = Some (nat (indexOf l HASKELL_HASQL_END))"
      "nat (indexOf l HASKELL_HASQL) + 6 \<le> nat (indexOf l HASKELL_HASQL_END)"
      "first_index (drop (nat (indexOf l HASKELL_HASQL_END) + 2) l) HASKELL_HASQL = None"
    using b p by (simp_all add: indexOf_some indexOf_none [symmetric])
  from count_region_line [OF 1 nl_tail_nltext, of rest] Single show ?thesis
    by (simp add: nltext_Cons count_False_nl)
next
  case (Multi a ms z)
  with assms have b: "indexOf a HASKELL_HASQL \<noteq> - 1" "indexOf a HASKELL_HASQL_END = - 1"
      "list_all (\<lambda>m. indexOf m HASKELL_HASQL_END = - 1) ms"
      "indexOf z HASKELL_HASQL_END \<noteq> - 1"
      "indexOf (drop (nat (indexOf z HASKELL_HASQL_END) + 2) z) HASKELL_HASQL = - 1"
    by simp_all
  have 1: "first_index a HASKELL_HASQL = Some (nat (indexOf a HASKELL_HASQL))"
      "first_index a HASKELL_HASQL_END = None"
      "list_all (\<lambda>m. indexOf m HASKELL_HASQL_END = - 1) ms"
      "first_index z HASKELL_HASQL_END = Some (nat (indexOf z HASKELL_HASQL_END))"
      "first_index (drop (nat (indexOf z HASKELL_HASQL_END) + 2) z) HASKELL_HASQL = None"
    using b by (simp_all add: indexOf_some indexOf_none [symmetric])
  let ?T = "nltext rest"
  have "count_regions False (nltext (block_lines b @ rest)) =
        count_regions False (a @ nltext (ms @ z # rest))"
    by (simp add: Multi nltext_Cons count_False_nl)
  also have "\<dots> = count_regions True (drop (nat (indexOf a HASKELL_HASQL) + 6) a @ nltext (ms @ z # rest))"
    by (rule count_False_open [OF 1(1) nl_tail_nltext])
  also have "\<dots> = count_regions True (nltext (ms @ z # rest))"
    by (rule count_True_skip [OF first_index_drop_None [OF delimiters(4) 1(2)] nl_tail_nltext])
  also have "\<dots> = count_regions True (nltext (z # rest))"
    by (rule count_True_lines [OF 1(3)])
  also have "\<dots> = count_regions True (z @ ?T)"
    by (simp add: nltext_Cons count_True_nl)
  also have "\<dots> = Suc (count_regions False (drop (nat (indexOf z HASKELL_HASQL_END) + 2) z @ ?T))"
    by (rule count_True_close [OF 1(4) nl_tail_nltext])
  also have "\<dots> = Suc (count_regions False ?T)"
    by (simp only: count_False_skip [OF 1(5) nl_tail_nltext])
  finally show ?thesis
    by (simp add: Multi)
qed

lemma count_layout:
  "list_all block_ok bs \<Longrightarrow>
   count_regions False (nltext (layout bs @ rest)) =
     length (filter is_region bs) + count_regions False (nltext rest)"
proof (induction bs)
  case Nil
  show ?case by (simp add: layout_def)
next
  case (Cons b bs)
  have "layout (b # bs) @ rest = block_lines b @ (layout bs @ rest)"
    by (simp add: layout_def)
  with Cons count_block [of b "layout bs @ rest"] show ?case
    by simp
qed

lemma count_join: "count_regions False (join_js [10] ls) = count_regions False (nltext ls)"
proof -
  have "join_js [10] (l # ls') = l @ nltext ls'" for l ls'
    by (induction ls' arbitrary: l) (simp_all add: nltext_Cons nltext_def)
  then show ?thesis
    by (cases ls) (simp_all add: nltext_Cons count_False_nl nltext_def)
qed

lemma count_regions_layout:
  "list_all block_ok bs \<Longrightarrow>
   count_regions False (join_js [10] (layout bs)) = length (filter is_region bs)"
  using count_layout [of bs "[]"] by (simp add: count_join nltext_def)

text \<open>
  Claim C2, as amended. For a document laid out in blocks (lines without the start
  delimiter, regions on one line whose first end delimiter stands behind the start
  delimiter, and regions over several lines; no start delimiter behind the end of a
  region on its line), the regions of the text are the regions of the blocks; when
  there is at least one, the extractor returns the span of every region, in document
  order, and the flag \<open>true\<close>: as many spans as regions, each from its start to
  its end, each ending before the next one starts. When such a document is followed by a line that opens a region which no later
  line closes, the spans collected so far are returned with the flag \<open>false\<close>.
\<close>

theorem getHasqlContent_regions:
  assumes "list_all block_ok bs"
  shows "(list_ex is_region bs \<longrightarrow>
            getHasqlContent (doc\<lparr>doc_lines := layout bs\<rparr>) = Some (layout_spans 0 bs, True)) \<and>
         count_regions False (join_js [10] (layout bs)) = length (filter is_region bs) \<and>
         length (layout_spans 0 bs) = length (filter is_region bs) \<and>
         list_all span_ok (layout_spans 0 bs) \<and>
         sorted_wrt span_before (layout_spans 0 bs) \<and>
         (indexOf a HASKELL_HASQL \<noteq> - 1 \<and> indexOf a HASKELL_HASQL_END = - 1 \<and>
          list_all (\<lambda>m. indexOf m HASKELL_HASQL_END = - 1) ms \<longrightarrow>
            getHasqlContent (doc\<lparr>doc_lines := layout bs @ a # ms\<rparr>) = Some (layout_spans 0 bs, False))"
proof -
  have "list_all span_ok (layout_spans 0 bs)"
    using layout_spans_lines [OF assms] by (simp add: list_all_iff)
  with assms show ?thesis
    by (simp add: getHasqlContent_layout getHasqlContent_unterminated layout_spans_length
        layout_spans_sorted count_regions_layout)
qed

theorem getHasqlContent_regions_witness:
  "getHasqlContent \<lparr>doc_uri = js ''file:///Q.hs'',
      doc_lines = [js ''x = 1'', js ''q = [hasql|'', js ''  select 1'', js ''  |]'',
                   js ''r = [hasql| select 2 |]''],
      doc_eol = [10]\<rparr> =
     Some ([\<lparr>start_line = 1, start_character = 11, end_line = 3, end_character = 2\<rparr>,
            \<lparr>start_line = 4, start_character = 11, end_line = 4, end_character = 21\<rparr>], True) \<and>
   getHasqlContent \<lparr>doc_uri = js ''file:///Q.hs'',
      doc_lines = [js ''x = 1'', js ''q = [hasql|'', js ''  select 1'', js ''  |]'',
                   js ''r = [hasql| select 2 |]'', js ''s = [hasql| select'', js ''  3''],
      doc_eol = [10]\<rparr> =
     Some ([\<lparr>start_line = 1, start_character = 11, end_line = 3, end_character = 2\<rparr>,
            \<lparr>start_line = 4, start_character = 11, end_line = 4, end_character = 21\<rparr>], False)"
  using getHasqlContent_regions [of
      "[Plain (js ''x = 1''), Multi (js ''q = [hasql|'') [js ''  select 1''] (js ''  |]''),
        Single (js ''r = [hasql| select 2 |]'')]"
      "\<lparr>doc_uri = js ''file:///Q.hs'', doc_lines = [], doc_eol = [10]\<rparr>"
      "js ''s = [hasql| select''" "[js ''  3'']"]
  by (simp add: indexOf_def js_def HASKELL_HASQL_def HASKELL_HASQL_END_def layout_def)

text \<open>
  The claim as it was stated fails on two regions of one line: the text holds two
  regions and the extractor returns one span. It fails as well on a document without a
  region, where the flag is \<open>false\<close>.
\<close>

theorem getHasqlContent_regions_counterexample:
  "count_regions False (join_js [10] [js ''[hasql|a|] [hasql|b|]'']) = 2 \<and>
   getHasqlContent \<lparr>doc_uri = js ''file:///Q.hs'', doc_lines = [js ''[hasql|a|] [hasql|b|]''],
                    doc_eol = [10]\<rparr> =
     Some ([\<lparr>start_line = 0, start_character = 7, end_line = 0, end_character = 8\<rparr>], True) \<and>
   count_regions False (join_js [10] [js ''x = 1'']) = 0 \<and>
   getHasqlContent \<lparr>doc_uri = js ''file:///Q.hs'', doc_lines = [js ''x = 1''], doc_eol = [10]\<rparr> =
     Some ([], False)"
  by (simp add: getHasqlContent_def scan_init_def scan_line_def indexOf_def js_def
      HASKELL_HASQL_def HASKELL_HASQL_END_def vscode_Range_def Let_def count_regions.simps)

section \<open>Properties of the validation orchestrator\<close>

lemma is_done_rank: "is_done ph = (rank ph = 2)"
  by (cases ph) simp_all

lemma runValidation_abort:
  "getHasqlContent document = Some (hs, False) \<Longrightarrow>
   runValidation lower typeCasts defaultValues document log pool diagnostics schedule =
     Some (log @ [LogParseFailed], diagnostics)"
  by (simp add: runValidation_def)

text \<open>What one completion does.\<close>

lemma on_completion_cases:
  assumes "on_completion lower tc dv document pool hs i p = Some p'"
  shows "i < length hs \<and> i < length (pass_phases p) \<and>
    ((pass_phases p ! i = AwaitSyntax \<and> pass_phases p' = (pass_phases p)[i := AwaitExplain] \<and>
      diagnosticsCurrent p' = diagnosticsCurrent p \<and> pass_diagnostics p' = pass_diagnostics p) \<or>
     (pass_phases p ! i = AwaitExplain \<and>
      pass_phases p' = (pass_phases p)[i := Done (diagnostic_of lower tc dv document pool (hs ! i) = None)] \<and>
      diagnosticsCurrent p' = diagnosticsCurrent p @
         (case diagnostic_of lower tc dv document pool (hs ! i) of None \<Rightarrow> [] | Some d \<Rightarrow> [d]) \<and>
      (\<forall>u. u \<noteq> doc_uri document \<longrightarrow> pass_diagnostics p' u = pass_diagnostics p u)))"
proof -
  from assms have b: "i < length hs" "i < length (pass_phases p)"
    by (auto simp: on_completion_def split: if_splits)
  show ?thesis
  proof (cases "pass_phases p ! i")
    case AwaitSyntax
    with assms b show ?thesis
      by (auto simp: on_completion_def Let_def)
  next
    case AwaitExplain
    with assms b show ?thesis
      by (auto simp: on_completion_def Let_def diagnostic_of_def actualError_of_def
          split: option.splits if_splits)
  next
    case (Done x)
    with assms b show ?thesis
      by (simp add: on_completion_def Let_def)
  qed
qed

lemma on_completion_Some:
  assumes "i < length hs" "i < length (pass_phases p)" "rank (pass_phases p ! i) \<le> 1"
  shows "\<exists>p'. on_completion lower tc dv document pool hs i p = Some p'"
  using assms by (cases "pass_phases p ! i") (auto simp: on_completion_def Let_def)

lemma filter_upt_add:
  "i < n \<Longrightarrow> \<not> P i \<Longrightarrow>
   mset (filter (\<lambda>j. P j \<or> j = i) [0 ..< n]) = add_mset i (mset (filter P [0 ..< n]))"
proof (induction n)
  case 0
  then show ?case by simp
next
  case (Suc n)
  show ?case
  proof (cases "i = n")
    case True
    have "filter (\<lambda>j. P j \<or> j = n) [0 ..< n] = filter P [0 ..< n]"
      by (rule filter_cong) auto
    with True Suc.prems show ?thesis by simp
  next
    case False
    with Suc have "mset (filter (\<lambda>j. P j \<or> j = i) [0 ..< n]) = add_mset i (mset (filter P [0 ..< n]))"
      by simp
    with False show ?thesis by simp
  qed
qed

lemma mset_map_filter:
  "mset xs = mset ys \<Longrightarrow> mset (List.map_filter f xs) = mset (List.map_filter f ys)"
proof -
  assume e: "mset xs = mset ys"
  have "mset (List.map_filter f zs) =
        image_mset (\<lambda>x. the (f x)) (filter_mset (\<lambda>x. f x \<noteq> None) (mset zs))" for zs
    by (simp add: List.map_filter_def comp_def)
  with e show ?thesis by simp
qed

lemma on_completion_inv:
  assumes c: "on_completion lower tc dv document pool hs i p = Some p'"
    and inv: "pass_inv (\<lambda>j. diagnostic_of lower tc dv document pool (hs ! j)) (length hs) p"
  shows "pass_inv (\<lambda>j. diagnostic_of lower tc dv document pool (hs ! j)) (length hs) p'"
proof -
  let ?g = "\<lambda>j. diagnostic_of lower tc dv document pool (hs ! j)"
  let ?n = "length hs"
  from inv have len: "length (pass_phases p) = ?n"
    and ms: "mset (diagnosticsCurrent p) = mset (List.map_filter ?g (done_indices p ?n))"
    by (simp_all add: pass_inv_def)
  from on_completion_cases [OF c] have i: "i < ?n"
    by simp
  from on_completion_cases [OF c] consider
      (first) "pass_phases p ! i = AwaitSyntax" "pass_phases p' = (pass_phases p)[i := AwaitExplain]"
        "diagnosticsCurrent p' = diagnosticsCurrent p"
    | (second) "pass_phases p ! i = AwaitExplain"
        "pass_phases p' = (pass_phases p)[i := Done (?g i = None)]"
        "diagnosticsCurrent p' = diagnosticsCurrent p @ (case ?g i of None \<Rightarrow> [] | Some d \<Rightarrow> [d])"
    by blast
  then show ?thesis
  proof cases
    case first
    have "done_indices p' ?n = done_indices p ?n"
      unfolding done_indices_def
      by (rule filter_cong) (use i in \<open>auto simp: first len nth_list_update\<close>)
    with first len ms show ?thesis
      by (simp add: pass_inv_def)
  next
    case second
    have "done_indices p' ?n = filter (\<lambda>j. is_done (pass_phases p ! j) \<or> j = i) [0 ..< ?n]"
      unfolding done_indices_def
      by (rule filter_cong) (use i in \<open>auto simp: second len nth_list_update\<close>)
    then have "mset (done_indices p' ?n) = add_mset i (mset (done_indices p ?n))"
      using filter_upt_add [of i ?n "\<lambda>j. is_done (pass_phases p ! j)"] i second(1)
      by (simp add: done_indices_def)
    then have "mset (done_indices p' ?n) = mset (done_indices p ?n @ [i])"
      by simp
    then have "mset (List.map_filter ?g (done_indices p' ?n)) =
               mset (List.map_filter ?g (done_indices p ?n @ [i]))"
      by (rule mset_map_filter)
    also have "\<dots> = mset (List.map_filter ?g (done_indices p ?n)) +
                     mset (case ?g i of None \<Rightarrow> [] | Some d \<Rightarrow> [d])"
      by (simp add: List.map_filter_def split: option.split)
    finally show ?thesis
      using second len ms by (simp add: pass_inv_def)
  qed
qed

lemma run_schedule_inv:
  assumes "run_schedule lower tc dv document pool hs schedule p = Some p'"
    and "pass_inv (\<lambda>j. diagnostic_of lower tc dv document pool (hs ! j)) (length hs) p"
  shows "pass_inv (\<lambda>j. diagnostic_of lower tc dv document pool (hs ! j)) (length hs) p'"
  using assms
proof (induction schedule arbitrary: p)
  case Nil
  then show ?case by simp
next
  case (Cons i schedule)
  from Cons.prems(1) obtain p1 where 1: "on_completion lower tc dv document pool hs i p = Some p1"
      "run_schedule lower tc dv document pool hs schedule p1 = Some p'"
    by (auto split: option.splits)
  from on_completion_inv [OF 1(1) Cons.prems(2)] Cons.IH [OF 1(2)] show ?case
    by simp
qed

lemma run_schedule_other:
  assumes "run_schedule lower tc dv document pool hs schedule p = Some p'"
    and "u \<noteq> doc_uri document"
  shows "pass_diagnostics p' u = pass_diagnostics p u"
  using assms
proof (induction schedule arbitrary: p)
  case Nil
  then show ?case by simp
next
  case (Cons i schedule)
  from Cons.prems(1) obtain p1 where 1: "on_completion lower tc dv document pool hs i p = Some p1"
      "run_schedule lower tc dv document pool hs schedule p1 = Some p'"
    by (auto split: option.splits)
  from on_completion_cases [OF 1(1)] Cons.prems(2) have "pass_diagnostics p1 u = pass_diagnostics p u"
    by auto
  with Cons.IH [OF 1(2) Cons.prems(2)] show ?case
    by simp
qed

lemma run_schedule_completes:
  assumes "length (pass_phases p) = length hs"
    and "list_all (\<lambda>i. i < length hs) schedule"
    and "\<forall>j < length hs. rank (pass_phases p ! j) + count_list schedule j \<le> 2"
  shows "\<exists>p'. run_schedule lower tc dv document pool hs schedule p = Some p' \<and>
     length (pass_phases p') = length hs \<and>
     (\<forall>j < length hs. rank (pass_phases p' ! j) = rank (pass_phases p ! j) + count_list schedule j)"
  using assms
proof (induction schedule arbitrary: p)
  case Nil
  then show ?case by simp
next
  case (Cons i schedule)
  from Cons.prems(2) have i: "i < length hs" and rest: "list_all (\<lambda>i. i < length hs) schedule"
    by simp_all
  from Cons.prems(3) i have r: "rank (pass_phases p ! i) \<le> 1"
    by fastforce
  from i Cons.prems(1) have i': "i < length (pass_phases p)"
    by simp
  from on_completion_Some [OF i i' r, of lower tc dv document pool]
  obtain p1 where 1: "on_completion lower tc dv document pool hs i p = Some p1"
    by auto
  from on_completion_cases [OF 1] r
  have ph: "length (pass_phases p1) = length hs"
    "\<forall>j < length hs. rank (pass_phases p1 ! j) = rank (pass_phases p ! j) + (if j = i then 1 else 0)"
    using Cons.prems(1) by (auto simp: nth_list_update)
  have "\<forall>j < length hs. rank (pass_phases p1 ! j) + count_list schedule j \<le> 2"
  proof (intro allI impI)
    fix j assume j: "j < length hs"
    with Cons.prems(3) have "rank (pass_phases p ! j) + count_list (i # schedule) j \<le> 2"
      by simp
    with ph(2) j show "rank (pass_phases p1 ! j) + count_list schedule j \<le> 2"
      by auto
  qed
  from Cons.IH [OF ph(1) rest this]
  obtain p' where 2: "run_schedule lower tc dv document pool hs schedule p1 = Some p'"
      "length (pass_phases p') = length hs"
      "\<forall>j < length hs. rank (pass_phases p' ! j) = rank (pass_phases p1 ! j) + count_list schedule j"
    by blast
  from 1 2 ph(2) show ?case
    by auto
qed

lemma diag_message_form:
  "diag_message (new_Diagnostic h n e) =
     js ''Query cyrb53 hash: '' @ digits_of n @
     (if err_message e = [] then [] else 10 # err_message e) @
     (case err_hint e of None \<Rightarrow> [] | Some t \<Rightarrow> if t = [] then [] else 10 # t)"
  by (simp add: new_Diagnostic_def js_def split: option.split)

lemma map_filter_nth: "List.map_filter (\<lambda>j. f (xs ! j)) [0 ..< length xs] = List.map_filter f xs"
proof -
  have "List.map_filter f (map (nth xs) [0 ..< length xs]) =
        List.map_filter (\<lambda>j. f (xs ! j)) [0 ..< length xs]"
    by (simp add: List.map_filter_def filter_map comp_def)
  then show ?thesis
    by (simp add: map_nth)
qed

lemma diagnostic_of_None:
  "(diagnostic_of lower tc dv document pool h = None) = (actualError_of lower tc dv document pool h = None)"
  by (simp add: diagnostic_of_def split: option.split)

lemma length_diagnostics:
  "length (List.map_filter (diagnostic_of lower tc dv document pool) hs) =
   length (filter (\<lambda>h. actualError_of lower tc dv document pool h \<noteq> None) hs)"
  by (simp add: List.map_filter_def diagnostic_of_None)

lemma run_pass:
  assumes "complete_schedule (length hs) schedule"
    and "p0 = \<lparr>pass_log = l0, pass_diagnostics = diagnostics, diagnosticsCurrent = [],
               pass_phases = replicate (length hs) AwaitSyntax\<rparr>"
  shows "\<exists>p. run_schedule lower tc dv document pool hs schedule p0 = Some p \<and>
     list_all is_done (pass_phases p) \<and>
     mset (diagnosticsCurrent p) = mset (List.map_filter (diagnostic_of lower tc dv document pool) hs) \<and>
     (pass_diagnostics p)(doc_uri document \<mapsto> diagnosticsCurrent p) =
       diagnostics(doc_uri document \<mapsto> diagnosticsCurrent p)"
proof -
  let ?g = "\<lambda>j. diagnostic_of lower tc dv document pool (hs ! j)"
  from assms(1) have s1: "list_all (\<lambda>i. i < length hs) schedule"
    and s2: "\<forall>j < length hs. count_list schedule j = 2"
    by (simp_all add: complete_schedule_def list_all_iff)
  from assms(2) have l: "length (pass_phases p0) = length hs"
    by simp
  from assms(2) s2 have c: "\<forall>j < length hs. rank (pass_phases p0 ! j) + count_list schedule j \<le> 2"
    by simp
  from run_schedule_completes [OF l s1 c, of lower tc dv document pool]
  obtain p where p: "run_schedule lower tc dv document pool hs schedule p0 = Some p"
      "length (pass_phases p) = length hs"
      "\<forall>j < length hs. rank (pass_phases p ! j) = rank (pass_phases p0 ! j) + count_list schedule j"
    by blast
  from p(3) s2 assms(2) have r: "\<forall>j < length hs. is_done (pass_phases p ! j)"
    by (simp add: is_done_rank)
  with p(2) have d: "list_all is_done (pass_phases p)"
    by (simp add: list_all_length)
  from assms(2) have "pass_inv ?g (length hs) p0"
    by (simp add: pass_inv_def done_indices_def List.map_filter_def)
  from run_schedule_inv [OF p(1) this]
  have "mset (diagnosticsCurrent p) = mset (List.map_filter ?g (done_indices p (length hs)))"
    by (simp add: pass_inv_def)
  moreover from r have "done_indices p (length hs) = [0 ..< length hs]"
    by (simp add: done_indices_def)
  ultimately have m: "mset (diagnosticsCurrent p) =
      mset (List.map_filter (diagnostic_of lower tc dv document pool) hs)"
    by (simp add: map_filter_nth)
  have "(pass_diagnostics p)(doc_uri document \<mapsto> diagnosticsCurrent p) =
       diagnostics(doc_uri document \<mapsto> diagnosticsCurrent p)"
  proof
    fix u
    show "((pass_diagnostics p)(doc_uri document \<mapsto> diagnosticsCurrent p)) u =
          (diagnostics(doc_uri document \<mapsto> diagnosticsCurrent p)) u"
      using run_schedule_other [OF p(1), of u] assms(2) by simp
  qed
  with p(1) d m show ?thesis
    by blast
qed

text \<open>
  Claim C6. When the extractor reports a document as not well-formed, the validation
  pass returns at once: the diagnostic collection is the one it was given, for this
  document and for every other, and the only effect is one line on the output channel.
\<close>

theorem runValidation_not_well_formed:
  "getHasqlContent document = Some (hs, False) \<Longrightarrow>
   runValidation lower typeCasts defaultValues document log pool diagnostics schedule =
     Some (log @ [LogParseFailed], diagnostics)"
  by (rule runValidation_abort)

theorem runValidation_not_well_formed_witness:
  "getHasqlContent \<lparr>doc_uri = js ''file:///Q.hs'',
      doc_lines = [js ''r = [hasql| select 2 |]'', js ''s = [hasql| select''], doc_eol = [10]\<rparr> =
     Some ([\<lparr>start_line = 0, start_character = 11, end_line = 0, end_character = 21\<rparr>], False) \<and>
   runValidation (\<lambda>c. c) Map.empty Map.empty
     \<lparr>doc_uri = js ''file:///Q.hs'',
      doc_lines = [js ''r = [hasql| select 2 |]'', js ''s = [hasql| select''], doc_eol = [10]\<rparr>
     [] (\<lambda>sql params. None)
     [js ''file:///Q.hs'' \<mapsto> [\<lparr>diag_range = \<lparr>start_line = 0, start_character = 11, end_line = 0,
                                   end_character = 20\<rparr>, diag_message = js ''stale''\<rparr>]] [] =
     Some ([LogParseFailed],
       [js ''file:///Q.hs'' \<mapsto> [\<lparr>diag_range = \<lparr>start_line = 0, start_character = 11, end_line = 0,
                                   end_character = 20\<rparr>, diag_message = js ''stale''\<rparr>]])"
proof -
  have h: "getHasqlContent \<lparr>doc_uri = js ''file:///Q.hs'',
      doc_lines = [js ''r = [hasql| select 2 |]'', js ''s = [hasql| select''], doc_eol = [10]\<rparr> =
     Some ([\<lparr>start_line = 0, start_character = 11, end_line = 0, end_character = 21\<rparr>], False)"
    by (simp add: getHasqlContent_def scan_init_def scan_line_def indexOf_def js_def
        HASKELL_HASQL_def HASKELL_HASQL_END_def vscode_Range_def Let_def)
  from h runValidation_not_well_formed [OF h] show ?thesis
    by simp
qed

text \<open>
  Claim C10. In a document without a start delimiter on any line the extractor finds
  no span and returns the flag \<open>false\<close>; a validation pass over such a document
  stops there: it appends one line to the output channel and leaves the diagnostic
  collection as it was.
\<close>

theorem getHasqlContent_no_fragment:
  "list_all (\<lambda>l. indexOf l HASKELL_HASQL = - 1) (doc_lines document) \<Longrightarrow>
   getHasqlContent document = Some ([], False) \<and>
   runValidation lower typeCasts defaultValues document log pool diagnostics schedule =
     Some (log @ [LogParseFailed], diagnostics)"
  by (simp add: getHasqlContent_no_start runValidation_abort)

theorem getHasqlContent_no_fragment_witness:
  "getHasqlContent \<lparr>doc_uri = js ''file:///M.hs'', doc_lines = [js ''module M where'', js ''x = 1''],
      doc_eol = [10]\<rparr> = Some ([], False) \<and>
   runValidation (\<lambda>c. c) Map.empty Map.empty
     \<lparr>doc_uri = js ''file:///M.hs'', doc_lines = [js ''module M where'', js ''x = 1''], doc_eol = [10]\<rparr>
     [] (\<lambda>sql params. None)
     [js ''file:///M.hs'' \<mapsto> [\<lparr>diag_range = \<lparr>start_line = 0, start_character = 11, end_line = 0,
                                   end_character = 20\<rparr>, diag_message = js ''stale''\<rparr>]] [] =
     Some ([LogParseFailed],
       [js ''file:///M.hs'' \<mapsto> [\<lparr>diag_range = \<lparr>start_line = 0, start_character = 11, end_line = 0,
                                   end_character = 20\<rparr>, diag_message = js ''stale''\<rparr>]])"
  using getHasqlContent_no_fragment [of
      "\<lparr>doc_uri = js ''file:///M.hs'', doc_lines = [js ''module M where'', js ''x = 1''], doc_eol = [10]\<rparr>"
      "\<lambda>c. c" Map.empty Map.empty "[]" "\<lambda>sql params. None"
      "[js ''file:///M.hs'' \<mapsto> [\<lparr>diag_range = \<lparr>start_line = 0, start_character = 11, end_line = 0,
                                   end_character = 20\<rparr>, diag_message = js ''stale''\<rparr>]]" "[]"]
  by (simp add: indexOf_def js_def HASKELL_HASQL_def)

text \<open>
  Claim C5. When a pass over a well-formed document completes (on any schedule of the
  database's answers), the diagnostic collection holds for the document exactly the
  diagnostics of this pass, whatever it held before: one for each fragment with an
  error, none for the others. A diagnostic carries the range of its fragment and a
  message of the fragment hash, then the error message, then the hint, the last two
  when they are not empty. So a pass with one failing and one passing fragment leaves
  one diagnostic, and a pass in which no fragment fails leaves the empty list.
\<close>

theorem runValidation_replaces_diagnostics:
  assumes "getHasqlContent document = Some (hs, True)"
    and "complete_schedule (length hs) schedule"
  shows "\<exists>log' ds.
     runValidation lower typeCasts defaultValues document log pool diagnostics schedule =
       Some (log', diagnostics(doc_uri document \<mapsto> ds)) \<and>
     mset ds = mset (List.map_filter (diagnostic_of lower typeCasts defaultValues document pool) hs) \<and>
     length ds =
       length (filter (\<lambda>h. actualError_of lower typeCasts defaultValues document pool h \<noteq> None) hs) \<and>
     (\<forall>h e. actualError_of lower typeCasts defaultValues document pool h = Some e \<longrightarrow>
        diagnostic_of lower typeCasts defaultValues document pool h =
          Some \<lparr>diag_range = h,
                diag_message =
                  js ''Query cyrb53 hash: '' @ digits_of (expressionHash_of lower document h) @
                  (if err_message e = [] then [] else 10 # err_message e) @
                  (case err_hint e of None \<Rightarrow> [] | Some t \<Rightarrow> if t = [] then [] else 10 # t)\<rparr>)"
proof -
  let ?p0 = "\<lparr>pass_log = log @ [LogDetected (length hs) (doc_uri document)] @
                 concat (map (callback_start lower document pool) hs),
               pass_diagnostics = diagnostics, diagnosticsCurrent = [],
               pass_phases = replicate (length hs) AwaitSyntax\<rparr>"
  from run_pass [OF assms(2) refl, of lower typeCasts defaultValues document pool _ diagnostics]
  obtain p where p: "run_schedule lower typeCasts defaultValues document pool hs schedule ?p0 = Some p"
      "list_all is_done (pass_phases p)"
      "mset (diagnosticsCurrent p) =
         mset (List.map_filter (diagnostic_of lower typeCasts defaultValues document pool) hs)"
      "(pass_diagnostics p)(doc_uri document \<mapsto> diagnosticsCurrent p) =
         diagnostics(doc_uri document \<mapsto> diagnosticsCurrent p)"
    by blast
  let ?ds = "diagnosticsCurrent p"
  from assms(1) p(1,2,4)
  have 1: "\<exists>log'. runValidation lower typeCasts defaultValues document log pool diagnostics schedule =
       Some (log', diagnostics(doc_uri document \<mapsto> ?ds))"
    by (simp add: runValidation_def Let_def)
  have "size (mset ?ds) =
        size (mset (List.map_filter (diagnostic_of lower typeCasts defaultValues document pool) hs))"
    by (simp only: p(3))
  then have 2: "length ?ds =
       length (filter (\<lambda>h. actualError_of lower typeCasts defaultValues document pool h \<noteq> None) hs)"
    by (simp add: length_diagnostics)
  have 3: "diagnostic_of lower typeCasts defaultValues document pool h =
          Some \<lparr>diag_range = h,
                diag_message =
                  js ''Query cyrb53 hash: '' @ digits_of (expressionHash_of lower document h) @
                  (if err_message e = [] then [] else 10 # err_message e) @
                  (case err_hint e of None \<Rightarrow> [] | Some t \<Rightarrow> if t = [] then [] else 10 # t)\<rparr>"
    if "actualError_of lower typeCasts defaultValues document pool h = Some e" for h e
    using that diag_message_form [of h "expressionHash_of lower document h" e]
    by (simp add: diagnostic_of_def new_Diagnostic_def)
  from 1 2 3 p(3) show ?thesis
    by blast
qed

theorem runValidation_replaces_diagnostics_witness:
  "(\<exists>log' ds.
      runValidation (\<lambda>c. c) Map.empty Map.empty (example_document (js ''selec 1'')) []
        example_pool example_stale [1, 0, 0, 1] =
        Some (log', [js ''file:///Q.hs'' \<mapsto> ds]) \<and>
      length ds = 1) \<and>
   (\<exists>log'.
      runValidation (\<lambda>c. c) Map.empty Map.empty (example_document (js ''select 1'')) []
        example_pool example_stale [0, 1, 1, 0] =
        Some (log', [js ''file:///Q.hs'' \<mapsto> []]))"
proof -
  let ?hs = "[\<lparr>start_line = 0, start_character = 11, end_line = 0, end_character = 20\<rparr>,
             \<lparr>start_line = 1, start_character = 11, end_line = 1, end_character = 21\<rparr>]"
  let ?hs' = "[\<lparr>start_line = 0, start_character = 11, end_line = 0, end_character = 21\<rparr>,
              \<lparr>start_line = 1, start_character = 11, end_line = 1, end_character = 21\<rparr>]"
  note scan = getHasqlContent_def scan_init_def scan_line_def indexOf_def js_def
    HASKELL_HASQL_def HASKELL_HASQL_END_def vscode_Range_def Let_def example_document_def
  note checks = actualError_of_def syntaxError_of_def explainError_of_def runSyntaxCheck_def
    runExplainCheck_def wrapExpressionInSyntaxCheck_def wrapExpressionInExplainCheck_def
    explain_actualQuery_def explain_parameterValues_def object_keys_def or_empty_def
    getText_def line_at_def normalizeEnding_def trim_def trimEnd_def trimStart_def
    is_space_def char_at_def includes_js_def indexOf_def js_def count_parameters_def
    is_digit_def is_digit19_def example_document_def example_pool_def
  have h: "getHasqlContent (example_document (js ''selec 1'')) = Some (?hs, True)"
    by (simp add: scan)
  have h': "getHasqlContent (example_document (js ''select 1'')) = Some (?hs', True)"
    by (simp add: scan)
  have c: "complete_schedule (length ?hs) [1, 0, 0, 1]" "complete_schedule (length ?hs') [0, 1, 1, 0]"
    by (simp_all add: complete_schedule_def)
  have f: "length (filter (\<lambda>h. actualError_of (\<lambda>c. c) Map.empty Map.empty
                (example_document (js ''selec 1'')) example_pool h \<noteq> None) ?hs) = 1"
    by (simp add: checks)
  have f': "length (filter (\<lambda>h. actualError_of (\<lambda>c. c) Map.empty Map.empty
                (example_document (js ''select 1'')) example_pool h \<noteq> None) ?hs') = 0"
    by (simp add: checks)
  have u: "doc_uri (example_document x) = js ''file:///Q.hs''" for x
    by (simp add: example_document_def)
  have m: "example_stale(js ''file:///Q.hs'' \<mapsto> ds) = [js ''file:///Q.hs'' \<mapsto> ds]" for ds
    by (simp add: example_stale_def)
  from runValidation_replaces_diagnostics [OF h c(1), of "\<lambda>c. c" Map.empty Map.empty "[]"
      example_pool example_stale]
  obtain log1 ds1 where 1:
    "runValidation (\<lambda>c. c) Map.empty Map.empty (example_document (js ''selec 1'')) []
       example_pool example_stale [1, 0, 0, 1] = Some (log1, [js ''file:///Q.hs'' \<mapsto> ds1])"
    "length ds1 = 1"
    unfolding f u m by blast
  from runValidation_replaces_diagnostics [OF h' c(2), of "\<lambda>c. c" Map.empty Map.empty "[]"
      example_pool example_stale]
  obtain log2 ds2 where 2:
    "runValidation (\<lambda>c. c) Map.empty Map.empty (example_document (js ''select 1'')) []
       example_pool example_stale [0, 1, 1, 0] = Some (log2, [js ''file:///Q.hs'' \<mapsto> ds2])"
    "length ds2 = 0"
    unfolding f' u m by blast
  from 2(2) have "ds2 = []"
    by simp
  with 1 2(1) show ?thesis
    by blast
qed

end
